theory Spec2Isabelle
  imports Main "HOL-Library.Word" "HOL-Library.Multiset"
begin

unbundle bit_operations_syntax

chapter \<open>A shallow embedding of the Nostr client\<close>

text \<open>
  The development follows the TypeScript sources: the hex table encoder of
  \<^verbatim>\<open>nostr/encode.ts\<close> and the class \<^verbatim>\<open>Nostr\<close> of \<^verbatim>\<open>nostr/nostr.ts\<close>
  (key conversion, the key setters, the event multiplexer of \<^verbatim>\<open>filter\<close>, the
  profile queries and the posting operations). All definitions come first; the lemmas
  and the theorems about them follow.
\<close>

section \<open>Byte arrays and the two hex encoders\<close>

type_synonym byte = "8 word"

text \<open>
  Reading a \<^verbatim>\<open>Uint8Array\<close> outside its bounds yields \<^verbatim>\<open>undefined\<close> (here \<open>None\<close>);
  writing outside its bounds is ignored, and storing \<^verbatim>\<open>undefined\<close> stores 0.
\<close>

definition typed_get :: "byte list \<Rightarrow> nat \<Rightarrow> byte option" where
  "typed_get a i = (if i < length a then Some (a ! i) else None)"

definition typed_set :: "byte list \<Rightarrow> nat \<Rightarrow> byte option \<Rightarrow> byte list" where
  "typed_set a i v =
     (if i < length a then a[i := (case v of None \<Rightarrow> 0 | Some b \<Rightarrow> b)] else a)"

text \<open>\<^verbatim>\<open>v >> 4\<close> and \<^verbatim>\<open>v & 0x0f\<close>; the bitwise operators read \<^verbatim>\<open>undefined\<close> as 0.\<close>

definition shr4 :: "byte option \<Rightarrow> nat" where
  "shr4 v = (case v of None \<Rightarrow> 0 | Some b \<Rightarrow> unat (drop_bit 4 b))"

definition and0f :: "byte option \<Rightarrow> nat" where
  "and0f v = (case v of None \<Rightarrow> 0 | Some b \<Rightarrow> unat (b AND 0x0f))"

subsection \<open>\<^verbatim>\<open>encode\<close> of encode.ts\<close>

text \<open>\<^verbatim>\<open>const hexTable = new TextEncoder().encode("0123456789abcdef")\<close>\<close>

definition hexTable :: "byte list" where
  "hexTable = map of_char ''0123456789abcdef''"

text \<open>
  The body of the loop, for one value of \<open>i\<close>. The loop of the source runs \<open>i\<close> up to
  \<^verbatim>\<open>dst.length\<close>, which is twice the length of \<open>src\<close>: in its second half \<^verbatim>\<open>src[i]\<close> is
  \<^verbatim>\<open>undefined\<close> and both writes fall outside \<open>dst\<close>.
\<close>

definition encode_body :: "byte list \<Rightarrow> byte list \<Rightarrow> nat \<Rightarrow> byte list" where
  "encode_body src dst i =
     (let v = typed_get src i;
          dst1 = typed_set dst (i * 2) (typed_get hexTable (shr4 v))
      in typed_set dst1 (i * 2 + 1) (typed_get hexTable (and0f v)))"

definition encode :: "byte list \<Rightarrow> byte list" where
  "encode src =
     (let dst = replicate (length src * 2) 0
      in foldl (encode_body src) dst [0..<length dst])"

text \<open>
  \<^verbatim>\<open>new TextDecoder().decode(bytes)\<close>, for the ASCII bytes that \<open>encode\<close> produces: each
  byte is one character.
\<close>

definition decoder_decode :: "byte list \<Rightarrow> string" where
  "decoder_decode bs = map (\<lambda>b. char_of (unat b)) bs"

subsection \<open>\<^verbatim>\<open>Nostr.hexChar\<close> and \<^verbatim>\<open>Nostr.hexEncode\<close>\<close>

text \<open>\<open>hexChar\<close> falls off its end for a value of 16 or more: the result is \<^verbatim>\<open>undefined\<close>.\<close>

definition hexChar :: "nat \<Rightarrow> string option" where
  "hexChar val =
     (if val < 10 then Some [char_of (48 + val)]
      else if val < 16 then Some [char_of (97 + val - 10)]
      else None)"

text \<open>\<^verbatim>\<open>str += x\<close>, where \<^verbatim>\<open>undefined\<close> is appended as the text "undefined".\<close>

definition str_add :: "string \<Rightarrow> string option \<Rightarrow> string" where
  "str_add s v = s @ (case v of None \<Rightarrow> ''undefined'' | Some t \<Rightarrow> t)"

definition hexEncode_body :: "string \<Rightarrow> byte \<Rightarrow> string" where
  "hexEncode_body str c =
     (let str1 = str_add str (hexChar (unat (drop_bit 4 c)))
      in str_add str1 (hexChar (unat (c AND 0xF))))"

definition hexEncode :: "byte list \<Rightarrow> string" where
  "hexEncode buf = foldl hexEncode_body [] buf"

subsection \<open>The reference rendering\<close>

text \<open>
  The standard hex rendering of a byte string, written from the specification: two
  lowercase digits per byte, the high nibble first.
\<close>

definition hex_digit :: "nat \<Rightarrow> char" where
  "hex_digit n = ''0123456789abcdef'' ! n"

definition hex_of_byte :: "byte \<Rightarrow> string" where
  "hex_of_byte b = [hex_digit (unat b div 16), hex_digit (unat b mod 16)]"

definition hex_render :: "byte list \<Rightarrow> string" where
  "hex_render bs = concat (map hex_of_byte bs)"

text \<open>The same two digits as the ASCII codes that \<open>encode\<close> stores.\<close>

definition enc_pair :: "byte \<Rightarrow> byte list" where
  "enc_pair b = [of_char (hex_digit (unat b div 16)), of_char (hex_digit (unat b mod 16))]"

section \<open>Events, filters and relays\<close>

datatype error =
    TypeError
  | SyntaxError
  | Thrown string

datatype NostrKind = META_DATA | TEXT_NOTE | RECOMMED_SERVER | CONTACTS | DIRECT_MESSAGE

text \<open>
  An event as the client reads and builds it. The public key is whatever the client
  holds in \<^verbatim>\<open>_publicKey\<close>, which is \<^verbatim>\<open>undefined\<close> (here \<open>None\<close>) until a key is set.
  Strings are byte strings in UTF-8.
\<close>

record NostrEvent =
  content :: string
  created_at :: int
  event_id :: string
  kind :: NostrKind
  pubkey :: "string option"
  sig :: string
  tags :: "string list list"

record NostrFilters =
  ids :: "string list option"
  authors :: "string option list option"
  kinds :: "NostrKind list option"
  e_refs :: "string list option"
  p_refs :: "string option list option"
  since :: "int option"
  until :: "int option"
  limit :: "int option"

definition no_filters :: NostrFilters where
  "no_filters = \<lparr>ids = None, authors = None, kinds = None, e_refs = None, p_refs = None,
     since = None, until = None, limit = None\<rparr>"

text \<open>
  Modelled from the spec: the class \<^verbatim>\<open>Relay\<close> (relay.ts) is not among the sources. A
  relay session is represented by what it answers: the finite batch of
  \<^verbatim>\<open>subscribePromise\<close>, the items that the asynchronous iterator of \<^verbatim>\<open>events\<close> produces
  before it reports exhaustion, and whether \<^verbatim>\<open>sendEvent\<close> resolves (\<open>True\<close>) or throws.
\<close>

record Relay =
  relay_name :: string
  subscribePromise :: "NostrFilters \<Rightarrow> NostrEvent list"
  events :: "NostrFilters \<Rightarrow> NostrEvent list"
  sendEvent_ok :: "NostrEvent \<Rightarrow> bool"

text \<open>
  The platform functions that the client calls: \<^verbatim>\<open>utils.sha256\<close>, the schnorr functions
  of secp.ts (signing and key derivation may throw), \<^verbatim>\<open>JSON.stringify\<close> on the commitment
  array, \<^verbatim>\<open>JSON.parse\<close> and the clock. They are parameters of the model.
\<close>

datatype json =
    JNull
  | JBool bool
  | JNum int
  | JStr string
  | JArr "json list"
  | JObj "(string \<times> json) list"

record platform =
  sha256 :: "byte list \<Rightarrow> byte list"
  schnorr_sign :: "string \<Rightarrow> string option \<Rightarrow> error + byte list"
  schnorr_getPublicKey :: "string \<Rightarrow> error + byte list"
  schnorr_verify :: "string \<Rightarrow> string \<Rightarrow> string option \<Rightarrow> bool"
  json_stringify :: "string option \<times> int \<times> NostrKind \<times> string list list \<times> string \<Rightarrow> string"
  json_parse :: "string \<Rightarrow> json option"
  date_now :: "nat \<Rightarrow> int"

section \<open>The multiplexer of \<^verbatim>\<open>Nostr.filter\<close>\<close>

text \<open>
  An asynchronous iterator over the events of one relay: \<open>src_relay\<close> is the position of its
  relay in \<^verbatim>\<open>relayInstances\<close>, \<open>rest\<close> the items it has not handed out yet.
\<close>

record relay_iterator =
  src_relay :: nat
  rest :: "NostrEvent list"

datatype 'a IteratorResult = Done | Value 'a

definition iter_next :: "relay_iterator \<Rightarrow> NostrEvent IteratorResult \<times> relay_iterator" where
  "iter_next it =
     (case rest it of
        [] \<Rightarrow> (Done, it)
      | e # es \<Rightarrow> (Value e, it\<lparr>rest := es\<rparr>))"

text \<open>
  What a promise of \<^verbatim>\<open>indexedPromises\<close> resolves to: \<^verbatim>\<open>{value, i}\<close>. The source decrements
  \<open>i\<close> in a callback chained on the promise, which runs before the promise can win a
  later race; the model decrements it at once.
\<close>

record indexed =
  res_value :: "NostrEvent IteratorResult"
  res_i :: int

text \<open>
  The state of the generator. An array entry is \<open>None\<close> where the array has a hole.
  \<open>yielded\<close> is the sequence handed to the consumer so far, \<open>next_calls\<close> the sources
  on which \<^verbatim>\<open>next()\<close> has been called, in order of the calls.
\<close>

record mux =
  relayIterators :: "relay_iterator list"
  indexedPromises :: "indexed option list"
  yieldedEventIds :: "string list"
  yielded :: "NostrEvent list"
  next_calls :: "nat list"

text \<open>\<^verbatim>\<open>arr.splice(start, 1)\<close>: a negative start counts from the end.\<close>

definition splice1 :: "'a list \<Rightarrow> int \<Rightarrow> 'a list" where
  "splice1 xs start =
     (let n = int (length xs);
          s = nat (if start < 0 then max (n + start) 0 else min start n)
      in take s xs @ drop (Suc s) xs)"

text \<open>\<^verbatim>\<open>arr[i]\<close> and \<^verbatim>\<open>arr[i] = v\<close>; a write beyond the end extends the array with holes.\<close>

definition js_get :: "'a list \<Rightarrow> int \<Rightarrow> 'a option" where
  "js_get xs j = (if 0 \<le> j \<and> j < int (length xs) then Some (xs ! nat j) else None)"

definition js_set :: "'a option list \<Rightarrow> nat \<Rightarrow> 'a \<Rightarrow> 'a option list" where
  "js_set xs j v =
     (if j < length xs then xs[j := Some v]
      else xs @ replicate (j - length xs) None @ [Some v])"

text \<open>
  \<^verbatim>\<open>for (let i = start; i < indexedPromises.length; i++) indexedPromises[i] = indexedPromises[i].then(r => {r.i--; return r})\<close>:
  calling \<^verbatim>\<open>then\<close> on a missing entry is a type error. A negative \<open>start\<close> is below
  every length, so the body runs at a negative index, where the array has no entry.
\<close>

fun decrement_from :: "nat \<Rightarrow> indexed option list \<Rightarrow> error + indexed option list" where
  "decrement_from j [] = Inr []"
| "decrement_from (Suc j) (x # xs) =
     (case decrement_from j xs of Inl e \<Rightarrow> Inl e | Inr ys \<Rightarrow> Inr (x # ys))"
| "decrement_from 0 (None # xs) = Inl TypeError"
| "decrement_from 0 (Some r # xs) =
     (case decrement_from 0 xs of
        Inl e \<Rightarrow> Inl e
      | Inr ys \<Rightarrow> Inr (Some (r\<lparr>res_i := res_i r - 1\<rparr>) # ys))"

definition reindex :: "int \<Rightarrow> indexed option list \<Rightarrow> error + indexed option list" where
  "reindex start ps =
     (if start < 0 then Inl TypeError else decrement_from (nat start) ps)"

text \<open>
  \<^verbatim>\<open>const nextPromises = relayIterators.map(i => i.next())\<close> and
  \<^verbatim>\<open>indexedPromises = nextPromises.map((p, i) => indexPromise(p, i))\<close>.
\<close>

definition mux_start :: "relay_iterator list \<Rightarrow> mux" where
  "mux_start its =
     (let rs = map iter_next its
      in \<lparr>relayIterators = map snd rs,
          indexedPromises =
            map (\<lambda>(r, j). Some \<lparr>res_value = fst r, res_i = int j\<rparr>) (zip rs [0..<length rs]),
          yieldedEventIds = [],
          yielded = [],
          next_calls = map src_relay its\<rparr>)"

text \<open>
  One turn of the \<^verbatim>\<open>while\<close> loop, when the race is won by the promise at position \<open>p\<close> of
  \<^verbatim>\<open>indexedPromises\<close>.
\<close>

definition loop_body :: "bool \<Rightarrow> nat \<Rightarrow> mux \<Rightarrow> error + mux" where
  "loop_body unique p st =
     (case indexedPromises st ! p of
        None \<Rightarrow> Inl TypeError
      | Some indexResult \<Rightarrow>
          (case res_value indexResult of
             Done \<Rightarrow>
               (case reindex (res_i indexResult) (splice1 (indexedPromises st) (res_i indexResult)) of
                  Inl e \<Rightarrow> Inl e
                | Inr ps \<Rightarrow>
                    Inr (st\<lparr>relayIterators := splice1 (relayIterators st) (res_i indexResult),
                            indexedPromises := ps\<rparr>))
           | Value ev \<Rightarrow>
               (let st1 =
                      (if \<not> unique \<or> event_id ev \<notin> set (yieldedEventIds st)
                       then st\<lparr>yielded := yielded st @ [ev],
                               yieldedEventIds :=
                                 (if unique then yieldedEventIds st @ [event_id ev]
                                  else yieldedEventIds st)\<rparr>
                       else st)
                in case js_get (relayIterators st1) (res_i indexResult) of
                     None \<Rightarrow> Inl TypeError
                   | Some it \<Rightarrow>
                       (let (r, it') = iter_next it;
                            j = nat (res_i indexResult)
                        in Inr (st1\<lparr>relayIterators := (relayIterators st1)[j := it'],
                                    indexedPromises :=
                                      js_set (indexedPromises st1) j
                                        \<lparr>res_value = r, res_i = res_i indexResult\<rparr>,
                                    next_calls := next_calls st1 @ [src_relay it]\<rparr>)))))"

text \<open>
  The loop. \<^verbatim>\<open>await Promise.race(indexedPromises)\<close> is won by one of the pending
  promises; which one is the arrival order, given here by \<open>sched\<close>: the race of turn \<open>k\<close>
  is won by the promise at position \<open>sched k mod n\<close> among the \<open>n\<close> pending ones, so
  that every function \<open>sched\<close> is an arrival order and every arrival order is given by
  some \<open>sched\<close>. A race over no promise at all never settles: the loop does not return.
\<close>

partial_function (option) filter_loop ::
  "bool \<Rightarrow> (nat \<Rightarrow> nat) \<Rightarrow> nat \<Rightarrow> mux \<Rightarrow> (error + mux) option" where
  "filter_loop unique sched k st =
     (if relayIterators st = [] then Some (Inr st)
      else if indexedPromises st = [] then None
      else (case loop_body unique (sched k mod length (indexedPromises st)) st of
              Inl e \<Rightarrow> Some (Inl e)
            | Inr st' \<Rightarrow> filter_loop unique sched (Suc k) st'))"

declare filter_loop.simps [code]

text \<open>\<^verbatim>\<open>const relayIterators = this.relayInstances.map(r => r.events(filters))\<close>\<close>

definition relay_iterators :: "Relay list \<Rightarrow> NostrFilters \<Rightarrow> relay_iterator list" where
  "relay_iterators relayInstances filters =
     map (\<lambda>(r, j). \<lparr>src_relay = j, rest = events r filters\<rparr>)
       (zip relayInstances [0..<length relayInstances])"

text \<open>
  \<^verbatim>\<open>this.filter(filters, unique).collect()\<close>: the events yielded by the generator, in
  order, once it has returned; \<open>None\<close> when it never returns.
\<close>

definition filter_collect ::
  "Relay list \<Rightarrow> (nat \<Rightarrow> nat) \<Rightarrow> NostrFilters \<Rightarrow> bool \<Rightarrow> (error + NostrEvent list) option" where
  "filter_collect relayInstances sched filters unique =
     (case filter_loop unique sched 0 (mux_start (relay_iterators relayInstances filters)) of
        None \<Rightarrow> None
      | Some (Inl e) \<Rightarrow> Some (Inl e)
      | Some (Inr st) \<Rightarrow> Some (Inr (yielded st)))"

text \<open>
  The sequence that the specification asks for when duplicates are suppressed: of the
  events in arrival order, the first one with each identifier.
\<close>

fun first_arrivals :: "string list \<Rightarrow> NostrEvent list \<Rightarrow> NostrEvent list" where
  "first_arrivals seen [] = []"
| "first_arrivals seen (e # es) =
     (if event_id e \<in> set seen then first_arrivals seen es
      else e # first_arrivals (seen @ [event_id e]) es)"



section \<open>Key conversion: hex, bech32 and the key setters\<close>

subsection \<open>The helpers of secp.ts\<close>

text \<open>
  Modelled from the spec: \<^verbatim>\<open>utils.bytesToHex\<close> and \<^verbatim>\<open>utils.hexToBytes\<close> of secp.ts, which is
  not among the sources. The first renders each byte as two lowercase hex digits; the
  second reads two hex digits (of either case) per byte and throws on a string of odd
  length or with another character.
\<close>

definition bytesToHex :: "byte list \<Rightarrow> string" where
  "bytesToHex data = hex_render data"

definition hex_value :: "char \<Rightarrow> nat option" where
  "hex_value c =
     (let n = (of_char c :: nat) in
      if 48 \<le> n \<and> n \<le> 57 then Some (n - 48)
      else if 97 \<le> n \<and> n \<le> 102 then Some (n - 87)
      else if 65 \<le> n \<and> n \<le> 70 then Some (n - 55)
      else None)"

fun hexToBytes :: "string \<Rightarrow> error + byte list" where
  "hexToBytes [] = Inr []"
| "hexToBytes [c] = Inl (Thrown ''hexToBytes: received invalid unpadded hex'')"
| "hexToBytes (c1 # c2 # cs) =
     (if odd (length cs) then Inl (Thrown ''hexToBytes: received invalid unpadded hex'')
      else
        (case (hex_value c1, hex_value c2) of
           (Some h, Some l) \<Rightarrow>
             (case hexToBytes cs of
                Inl e \<Rightarrow> Inl e
              | Inr bs \<Rightarrow> Inr (of_nat (16 * h + l) # bs))
         | _ \<Rightarrow> Inl (Thrown ''Invalid byte sequence'')))"

subsection \<open>The bech32 codec\<close>

text \<open>
  Modelled from the spec: the codec \<^verbatim>\<open>bech32\<close> is imported from the library scure-base and
  is not among the sources. It is modelled as the bech32 encoding that the
  specification names (checksum per the bech32 specification, data in groups of five
  bits, an upper bound on the length of the encoded string that both \<^verbatim>\<open>encode\<close> and
  \<^verbatim>\<open>decode\<close> take as their last argument). In the conversions that the client makes
  (bytes to groups of five bits and back, and the 30 bits of the checksum) every number
  stays below \<open>2 ^ 31\<close>, so the 32-bit operators of the source do not wrap and
  natural numbers stand for them.
\<close>

definition bech_alphabet :: string where
  "bech_alphabet = ''qpzry9x8gf2tvdw0s3jn54khce6mua7l''"

fun alphabet_encode :: "nat list \<Rightarrow> error + string" where
  "alphabet_encode [] = Inr []"
| "alphabet_encode (d # ds) =
     (if d < length bech_alphabet then
        (case alphabet_encode ds of Inl e \<Rightarrow> Inl e | Inr s \<Rightarrow> Inr (bech_alphabet ! d # s))
      else Inl (Thrown ''Digit index outside alphabet''))"

fun index_of :: "'a \<Rightarrow> 'a list \<Rightarrow> nat option" where
  "index_of c [] = None"
| "index_of c (x # xs) = (if x = c then Some 0 else map_option Suc (index_of c xs))"

fun alphabet_decode :: "string \<Rightarrow> error + nat list" where
  "alphabet_decode [] = Inr []"
| "alphabet_decode (c # cs) =
     (case index_of c bech_alphabet of
        None \<Rightarrow> Inl (Thrown ''Unknown letter'')
      | Some d \<Rightarrow>
          (case alphabet_decode cs of Inl e \<Rightarrow> Inl e | Inr ds \<Rightarrow> Inr (d # ds)))"

text \<open>
  The inner loop of \<^verbatim>\<open>convertRadix2\<close>:
  \<^verbatim>\<open>for (; pos >= to; pos -= to) res.push(((carry >> (pos - to)) & mask) >>> 0)\<close>.
  The function is only called with \<open>to\<close> positive.
\<close>

function radix_emit :: "nat \<Rightarrow> nat \<Rightarrow> nat \<Rightarrow> nat list \<Rightarrow> nat \<times> nat list" where
  "radix_emit to carry pos res =
     (if 0 < to \<and> to \<le> pos
      then radix_emit to carry (pos - to) (res @ [drop_bit (pos - to) carry AND (2 ^ to - 1)])
      else (pos, res))"
  by pat_completeness auto
termination
  by (relation "measure (\<lambda>(to, carry, pos, res). pos)") auto

declare radix_emit.simps [simp del]

text \<open>The body of the loop over the data, on the state \<open>(carry, pos, res)\<close>, and the loop.\<close>

definition radix_step ::
  "nat \<Rightarrow> nat \<Rightarrow> nat \<times> nat \<times> nat list \<Rightarrow> nat \<Rightarrow> error + nat \<times> nat \<times> nat list" where
  "radix_step from to st n =
     (case st of (carry, pos, res) \<Rightarrow>
        if n \<ge> 2 ^ from then Inl (Thrown ''convertRadix2: invalid data word'')
        else
          (let carry1 = push_bit from carry OR n in
           if pos + from > 32 then Inl (Thrown ''convertRadix2: carry overflow'')
           else
             (case radix_emit to carry1 (pos + from) res of
                (pos2, res2) \<Rightarrow> Inr (carry1 AND (2 ^ pos2 - 1), pos2, res2))))"

fun radix_loop ::
  "nat \<Rightarrow> nat \<Rightarrow> nat list \<Rightarrow> nat \<times> nat \<times> nat list \<Rightarrow> error + nat \<times> nat \<times> nat list" where
  "radix_loop from to [] st = Inr st"
| "radix_loop from to (n # ns) st =
     (case radix_step from to st n of
        Inl e \<Rightarrow> Inl e
      | Inr st' \<Rightarrow> radix_loop from to ns st')"

definition convertRadix2 :: "nat list \<Rightarrow> nat \<Rightarrow> nat \<Rightarrow> bool \<Rightarrow> error + nat list" where
  "convertRadix2 data from to padding =
     (if from = 0 \<or> from > 32 then Inl (Thrown ''convertRadix2: wrong from'')
      else if to = 0 \<or> to > 32 then Inl (Thrown ''convertRadix2: wrong to'')
      else
        (case radix_loop from to data (0, 0, []) of
           Inl e \<Rightarrow> Inl e
         | Inr (carry, pos, res) \<Rightarrow>
             (let carry' = push_bit (to - pos) carry AND (2 ^ to - 1) in
              if \<not> padding \<and> pos \<ge> from then Inl (Thrown ''Excess padding'')
              else if \<not> padding \<and> carry' \<noteq> 0 then Inl (Thrown ''Non-zero padding'')
              else if padding \<and> pos > 0 then Inr (res @ [carry'])
              else Inr res)))"

text \<open>\<^verbatim>\<open>bech32.toWords\<close> and \<^verbatim>\<open>bech32.fromWords\<close>.\<close>

definition toWords :: "byte list \<Rightarrow> error + nat list" where
  "toWords data = convertRadix2 (map unat data) 8 5 True"

definition fromWords :: "nat list \<Rightarrow> error + byte list" where
  "fromWords ws =
     (case convertRadix2 ws 5 8 False of Inl e \<Rightarrow> Inl e | Inr ns \<Rightarrow> Inr (map of_nat ns))"

definition POLYMOD_GENERATORS :: "nat list" where
  "POLYMOD_GENERATORS = [0x3b6a57b2, 0x26508e6d, 0x1ea119fa, 0x3d4233dd, 0x2a1462b3]"

definition bech32Polymod :: "nat \<Rightarrow> nat" where
  "bech32Polymod pre =
     (let b = drop_bit 25 pre;
          chk = push_bit 5 (pre AND 0x1ffffff)
      in foldl (\<lambda>chk i. if bit b i then chk XOR (POLYMOD_GENERATORS ! i) else chk) chk [0..<5])"

text \<open>The value \<open>chk\<close> that \<^verbatim>\<open>bechChecksum\<close> computes, and the checksum made of it.\<close>

definition checksum_value :: "string \<Rightarrow> nat list \<Rightarrow> nat" where
  "checksum_value prefix ws =
     (let chk1 = foldl (\<lambda>chk c. bech32Polymod chk XOR drop_bit 5 (of_char c)) 1 prefix;
          chk2 = bech32Polymod chk1;
          chk3 = foldl (\<lambda>chk c. bech32Polymod chk XOR ((of_char c) AND 0x1f)) chk2 prefix;
          chk4 = foldl (\<lambda>chk v. bech32Polymod chk XOR v) chk3 ws;
          chk5 = foldl (\<lambda>chk i. bech32Polymod chk) chk4 [0..<6]
      in chk5 XOR 1)"

definition bechChecksum :: "string \<Rightarrow> nat list \<Rightarrow> error + string" where
  "bechChecksum prefix ws =
     (if \<exists>c \<in> set prefix. (of_char c :: nat) < 33 \<or> (of_char c :: nat) > 126
      then Inl (Thrown ''Invalid prefix'')
      else
        (case convertRadix2 [checksum_value prefix ws mod 2 ^ 30] 30 5 False of
           Inl e \<Rightarrow> Inl e
         | Inr ds \<Rightarrow> alphabet_encode ds))"

definition toLowerCase :: "string \<Rightarrow> string" where
  "toLowerCase s =
     map (\<lambda>c. if 65 \<le> (of_char c :: nat) \<and> (of_char c :: nat) \<le> 90
              then char_of ((of_char c :: nat) + 32) else c) s"

definition toUpperCase :: "string \<Rightarrow> string" where
  "toUpperCase s =
     map (\<lambda>c. if 97 \<le> (of_char c :: nat) \<and> (of_char c :: nat) \<le> 122
              then char_of ((of_char c :: nat) - 32) else c) s"

text \<open>\<^verbatim>\<open>str.lastIndexOf(c)\<close>, \<open>None\<close> for -1.\<close>

definition lastIndexOf :: "char \<Rightarrow> string \<Rightarrow> nat option" where
  "lastIndexOf c s =
     (case index_of c (rev s) of None \<Rightarrow> None | Some j \<Rightarrow> Some (length s - 1 - j))"

definition bech32_encode :: "string \<Rightarrow> nat list \<Rightarrow> nat \<Rightarrow> error + string" where
  "bech32_encode prefix ws lim =
     (let actualLength = length prefix + 7 + length ws in
      if actualLength > lim then Inl TypeError
      else
        (let prefix' = toLowerCase prefix in
         case alphabet_encode ws of
           Inl e \<Rightarrow> Inl e
         | Inr body \<Rightarrow>
             (case bechChecksum prefix' ws of
                Inl e \<Rightarrow> Inl e
              | Inr csum \<Rightarrow> Inr (prefix' @ ''1'' @ body @ csum))))"

record bech32_decoded =
  dec_prefix :: string
  dec_words :: "nat list"

definition bech32_decode :: "string \<Rightarrow> nat \<Rightarrow> error + bech32_decoded" where
  "bech32_decode str lim =
     (if length str < 8 \<or> length str > lim then Inl TypeError
      else
        (let lowered = toLowerCase str in
         if str \<noteq> lowered \<and> str \<noteq> toUpperCase str
         then Inl (Thrown ''String must be lowercase or uppercase'')
         else
           (case lastIndexOf CHR ''1'' lowered of
              None \<Rightarrow> Inl (Thrown ''Letter 1 must be present between prefix and data only'')
            | Some sepIndex \<Rightarrow>
                if sepIndex = 0
                then Inl (Thrown ''Letter 1 must be present between prefix and data only'')
                else
                  (let prefix = take sepIndex lowered;
                       body = drop (sepIndex + 1) lowered
                   in if length body < 6 then Inl (Thrown ''Data must be at least 6 characters long'')
                      else
                        (case alphabet_decode body of
                           Inl e \<Rightarrow> Inl e
                         | Inr ds \<Rightarrow>
                             (let ws = take (length ds - 6) ds in
                              case bechChecksum prefix ws of
                                Inl e \<Rightarrow> Inl e
                              | Inr csum \<Rightarrow>
                                  if drop (length body - length csum) body = csum
                                     \<and> length csum \<le> length body
                                  then Inr \<lparr>dec_prefix = prefix, dec_words = ws\<rparr>
                                  else Inl (Thrown ''Invalid checksum'')))))))"

subsection \<open>\<^verbatim>\<open>getKeyFromNip19\<close> and \<^verbatim>\<open>getNip19FromKey\<close>\<close>

definition Bech32MaxSize :: nat where
  "Bech32MaxSize = 5000"

text \<open>\<^verbatim>\<open>key.split('1')\<close>: the pieces between the occurrences of the separator.\<close>

fun split_on :: "char \<Rightarrow> string \<Rightarrow> string list" where
  "split_on c [] = [[]]"
| "split_on c (x # xs) =
     (if x = c then [] # split_on c xs
      else (case split_on c xs of [] \<Rightarrow> [[x]] | p # ps \<Rightarrow> (x # p) # ps))"

text \<open>
  \<^verbatim>\<open>const [prefix, bytes] = key.split('1')\<close>, put together again as
  \<^verbatim>\<open>`${prefix}1${bytes}`\<close>; a missing second piece is \<^verbatim>\<open>undefined\<close> and is rendered as such.
\<close>

definition rejoin :: "string \<Rightarrow> string" where
  "rejoin key =
     (case split_on CHR ''1'' key of
        [] \<Rightarrow> ''undefined1undefined''
      | [prefix] \<Rightarrow> prefix @ ''1'' @ ''undefined''
      | prefix # bytes # _ \<Rightarrow> prefix @ ''1'' @ bytes)"

definition getKeyFromNip19 :: "string \<Rightarrow> error + string" where
  "getKeyFromNip19 key =
     (case bech32_decode (rejoin key) 1500 of
        Inl e \<Rightarrow> Inl e
      | Inr code \<Rightarrow>
          (case fromWords (dec_words code) of
             Inl e \<Rightarrow> Inl e
           | Inr data \<Rightarrow> Inr (bytesToHex data)))"

definition getNip19FromKey :: "string \<Rightarrow> error + string" where
  "getNip19FromKey key =
     (case hexToBytes key of
        Inl e \<Rightarrow> Inl e
      | Inr data \<Rightarrow>
          (case toWords data of
             Inl e \<Rightarrow> Inl e
           | Inr ws \<Rightarrow> bech32_encode ''npub'' ws Bech32MaxSize))"

text \<open>
  The composition \<^verbatim>\<open>getKeyFromNip19(getNip19FromKey(key))\<close>: what the inner call throws,
  the composition throws.
\<close>

definition nip19_round_trip :: "string \<Rightarrow> error + string" where
  "nip19_round_trip key =
     (case getNip19FromKey key of Inl e \<Rightarrow> Inl e | Inr encoded \<Rightarrow> getKeyFromNip19 encoded)"

section \<open>The client\<close>

text \<open>
  The fields of the class \<^verbatim>\<open>Nostr\<close> that its operations read and write: the connected relay
  sessions and the two keys (\<^verbatim>\<open>_privateKey\<close> and \<^verbatim>\<open>_publicKey\<close>, \<^verbatim>\<open>undefined\<close> until set).
\<close>

record Nostr =
  relayInstances :: "Relay list"
  privateKey :: "string option"
  publicKey :: "string option"
  debugMode :: bool

text \<open>
  What the client does to the outside: every call of \<^verbatim>\<open>relay.sendEvent\<close>, with the relay's
  name, the event and whether the call resolved, and the number of times the clock was
  read.
\<close>

record world =
  sent :: "(string \<times> NostrEvent \<times> bool) list"
  ticks :: nat

text \<open>A value is truthy in a condition: a string when it is defined and not empty.\<close>

definition truthy :: "string option \<Rightarrow> bool" where
  "truthy v = (case v of None \<Rightarrow> False | Some s \<Rightarrow> s \<noteq> [])"

text \<open>Sequencing of asynchronous calls that may throw or never settle.\<close>

definition await :: "(error + 'a) option \<Rightarrow> ('a \<Rightarrow> (error + 'b) option) \<Rightarrow> (error + 'b) option" where
  "await m f = (case m of None \<Rightarrow> None | Some (Inl e) \<Rightarrow> Some (Inl e) | Some (Inr x) \<Rightarrow> f x)"

subsection \<open>Validation and the profile events\<close>

definition isValidEvent :: "platform \<Rightarrow> NostrEvent \<Rightarrow> bool" where
  "isValidEvent P event = schnorr_verify P (sig event) (event_id event) (pubkey event)"

definition getProfileEvents_body ::
  "platform \<Rightarrow> NostrFilters \<Rightarrow> NostrEvent list \<Rightarrow> Relay \<Rightarrow> NostrEvent list" where
  "getProfileEvents_body P filters evs relay =
     (let data = subscribePromise relay filters
      in if length data > 0 \<and> isValidEvent P (data ! 0) then evs @ [data ! 0] else evs)"

definition getProfileEvents :: "platform \<Rightarrow> Nostr \<Rightarrow> NostrFilters \<Rightarrow> NostrEvent list" where
  "getProfileEvents P nostr filters =
     foldl (getProfileEvents_body P filters) [] (relayInstances nostr)"

subsection \<open>Posts\<close>

record NostrPost =
  post_id :: string
  post_content :: string
  author :: "string option"
  post_createdAt :: int
  reference :: "string option"
  rootReference :: "string option"
  mentionTo :: "string option"

text \<open>\<^verbatim>\<open>tag[1]\<close>, \<^verbatim>\<open>undefined\<close> for a tag of one string.\<close>

definition tag1 :: "string list \<Rightarrow> string option" where
  "tag1 tag = (if 1 < length tag then Some (tag ! 1) else None)"

definition is_marked :: "string \<Rightarrow> string list \<Rightarrow> bool" where
  "is_marked marker tag \<longleftrightarrow>
     length tag > 0 \<and> tag ! 0 = ''e'' \<and> tag ! (length tag - 1) = marker"

definition is_mention :: "string list \<Rightarrow> bool" where
  "is_mention tag \<longleftrightarrow> length tag > 0 \<and> tag ! 0 = ''p''"

definition eventToPost :: "NostrEvent \<Rightarrow> NostrPost" where
  "eventToPost event =
     (let post = \<lparr>post_id = event_id event, post_content = content event,
                  author = pubkey event, post_createdAt = created_at event,
                  reference = None, rootReference = None, mentionTo = None\<rparr>;
          post1 = (case find (is_marked ''root'') (tags event) of
                     None \<Rightarrow> post
                   | Some root \<Rightarrow> post\<lparr>rootReference := tag1 root\<rparr>);
          post2 = (case find (is_marked ''reply'') (tags event) of
                     None \<Rightarrow> post1
                   | Some ref \<Rightarrow> post1\<lparr>reference := tag1 ref\<rparr>)
      in case find is_mention (tags event) of
           None \<Rightarrow> post2
         | Some mention \<Rightarrow> post2\<lparr>mentionTo := tag1 mention\<rparr>)"

subsection \<open>The queries built on \<^verbatim>\<open>filter\<close>\<close>

text \<open>Each call of \<^verbatim>\<open>collect\<close> has its own arrival order.\<close>

definition globalFeed ::
  "Nostr \<Rightarrow> (nat \<Rightarrow> nat) \<Rightarrow> int option \<Rightarrow> int option \<Rightarrow> string option list option
     \<Rightarrow> (error + NostrPost list) option" where
  "globalFeed nostr sched lim snc auths =
     (let filters = no_filters\<lparr>kinds := Some [TEXT_NOTE], limit := lim, since := snc,
                                authors := auths\<rparr>
      in await (filter_collect (relayInstances nostr) sched filters True)
           (\<lambda>evs. Some (Inr (map eventToPost evs))))"

definition getPosts :: "Nostr \<Rightarrow> (nat \<Rightarrow> nat) \<Rightarrow> (error + NostrPost list) option" where
  "getPosts nostr sched =
     (if \<not> truthy (publicKey nostr)
      then Some (Inl (Thrown ''You must set a public key for getting your posts.''))
      else
        (let filters = no_filters\<lparr>kinds := Some [TEXT_NOTE], authors := Some [publicKey nostr]\<rparr>
         in await (filter_collect (relayInstances nostr) sched filters True)
              (\<lambda>evs. Some (Inr (map eventToPost evs)))))"

definition getFollowerInfo ::
  "Nostr \<Rightarrow> (nat \<Rightarrow> nat) \<Rightarrow> string option \<Rightarrow> (error + string option list) option" where
  "getFollowerInfo nostr sched pk =
     (let filters = no_filters\<lparr>kinds := Some [CONTACTS], p_refs := Some [pk]\<rparr>
      in await (filter_collect (relayInstances nostr) sched filters True)
           (\<lambda>evs. Some (Inr (map pubkey evs))))"

definition latest_body :: "int \<times> NostrEvent option \<Rightarrow> NostrEvent \<Rightarrow> int \<times> NostrEvent option" where
  "latest_body acc ev =
     (if created_at ev > fst acc then (created_at ev, Some ev) else acc)"

definition getFollowingInfo ::
  "Nostr \<Rightarrow> (nat \<Rightarrow> nat) \<Rightarrow> string option \<Rightarrow> (error + NostrEvent option) option" where
  "getFollowingInfo nostr sched pk =
     (let filters = no_filters\<lparr>kinds := Some [CONTACTS], authors := Some [pk]\<rparr>
      in await (filter_collect (relayInstances nostr) sched filters True)
           (\<lambda>evs. Some (Inr (snd (foldl latest_body (0, None) evs)))))"

subsection \<open>The profile query\<close>

text \<open>
  Reading the property \<open>k\<close> of a parsed value, for the property names the client uses
  (\<^verbatim>\<open>name\<close>, \<^verbatim>\<open>about\<close>, \<^verbatim>\<open>picture\<close>, \<^verbatim>\<open>read\<close>, \<^verbatim>\<open>write\<close>): a type error on \<^verbatim>\<open>null\<close>,
  the member of an object, and \<^verbatim>\<open>undefined\<close> on every other value. An object lists its
  members in the order of enumeration.
\<close>

definition js_prop :: "json \<Rightarrow> string \<Rightarrow> error + json option" where
  "js_prop v k =
     (case v of
        JNull \<Rightarrow> Inl TypeError
      | JObj members \<Rightarrow> Inr (map_of members k)
      | _ \<Rightarrow> Inr None)"

fun show_nat :: "nat \<Rightarrow> string" where
  "show_nat n =
     (if n < 10 then [char_of (48 + n)]
      else show_nat (n div 10) @ [char_of (48 + n mod 10)])"

text \<open>
  The number of UTF-16 code units of a string, which is its \<^verbatim>\<open>length\<close> in the source:
  in UTF-8 every character starts with one byte outside \<open>0x80\<close> to \<open>0xBF\<close>, and a
  character of four bytes (first byte \<open>0xF0\<close> or above) takes two code units.
\<close>

definition utf16_length :: "string \<Rightarrow> nat" where
  "utf16_length s =
     length (filter (\<lambda>c. (of_char c :: nat) < 128 \<or> 192 \<le> (of_char c :: nat)) s)
     + length (filter (\<lambda>c. 240 \<le> (of_char c :: nat)) s)"

text \<open>
  What \<^verbatim>\<open>v[key]\<close> is for a key that \<^verbatim>\<open>for (const key in v)\<close> enumerates: a member of an
  object or an array, or one code unit of a string. A code unit is a string, on which
  every property the client reads is \<^verbatim>\<open>undefined\<close>.
\<close>

datatype element = Member json | CodeUnit

definition element_prop :: "element \<Rightarrow> string \<Rightarrow> error + json option" where
  "element_prop el k = (case el of Member v \<Rightarrow> js_prop v k | CodeUnit \<Rightarrow> Inr None)"

text \<open>
  \<^verbatim>\<open>for (const key in v)\<close>, each key with \<^verbatim>\<open>v[key]\<close>: the members of an object, the
  indices of an array, the indices of the code units of a string, and nothing for
  \<^verbatim>\<open>null\<close>, a boolean or a number.
\<close>

definition js_for_in :: "json \<Rightarrow> (string \<times> element) list" where
  "js_for_in v =
     (case v of
        JObj members \<Rightarrow> map (\<lambda>(key, x). (key, Member x)) members
      | JArr xs \<Rightarrow> zip (map show_nat [0..<length xs]) (map Member xs)
      | JStr s \<Rightarrow> map (\<lambda>j. (show_nat j, CodeUnit)) [0..<utf16_length s]
      | _ \<Rightarrow> [])"

record relay_pref =
  pref_url :: string
  pref_read :: "json option"
  pref_write :: "json option"

record contact =
  contact_name :: string
  contact_publicKey :: "string option"

record ProfileInfo =
  name :: "json option"
  picture :: "json option"
  about :: "json option"
  relays :: "relay_pref list option"
  following :: "contact list option"
  follower :: "contact list option"

definition empty_profile :: ProfileInfo where
  "empty_profile = \<lparr>name = None, picture = None, about = None, relays = None,
     following = None, follower = None\<rparr>"

text \<open>
  The loop over the metadata events. \<^verbatim>\<open>JSON.parse\<close> throws a syntax error on a content
  that is not JSON; nothing catches it.
\<close>

fun profile_metadata ::
  "platform \<Rightarrow> NostrEvent list \<Rightarrow> ProfileInfo \<times> int \<Rightarrow> error + ProfileInfo \<times> int" where
  "profile_metadata P [] acc = Inr acc"
| "profile_metadata P (event # evs) (profileInfo, createdAt) =
     (if created_at event > createdAt then
        (case json_parse P (content event) of
           None \<Rightarrow> Inl SyntaxError
         | Some data \<Rightarrow>
             (case js_prop data ''name'' of
                Inl e \<Rightarrow> Inl e
              | Inr n \<Rightarrow>
                  (case js_prop data ''about'' of
                     Inl e \<Rightarrow> Inl e
                   | Inr a \<Rightarrow>
                       (case js_prop data ''picture'' of
                          Inl e \<Rightarrow> Inl e
                        | Inr pic \<Rightarrow>
                            profile_metadata P evs
                              (profileInfo\<lparr>name := n, about := a, picture := pic\<rparr>,
                               created_at event)))))
      else profile_metadata P evs (profileInfo, createdAt))"

fun profile_relays :: "(string \<times> element) list \<Rightarrow> relay_pref list \<Rightarrow> error + relay_pref list" where
  "profile_relays [] acc = Inr acc"
| "profile_relays ((key, v) # kvs) acc =
     (case element_prop v ''read'' of
        Inl e \<Rightarrow> Inl e
      | Inr rd \<Rightarrow>
          (case element_prop v ''write'' of
             Inl e \<Rightarrow> Inl e
           | Inr wr \<Rightarrow> profile_relays kvs (acc @ [\<lparr>pref_url = key, pref_read = rd, pref_write = wr\<rparr>])))"

definition profile_following :: "string list list \<Rightarrow> contact list" where
  "profile_following tgs =
     map (\<lambda>tag. \<lparr>contact_name = [], contact_publicKey = tag1 tag\<rparr>) (filter is_mention tgs)"

definition profile_filters :: "string option \<Rightarrow> NostrFilters" where
  "profile_filters pk =
     no_filters\<lparr>kinds := Some [META_DATA], authors := Some [pk], limit := Some 1\<rparr>"

definition getProfile ::
  "platform \<Rightarrow> Nostr \<Rightarrow> (nat \<Rightarrow> nat) \<Rightarrow> (nat \<Rightarrow> nat) \<Rightarrow> string option
     \<Rightarrow> (error + ProfileInfo) option" where
  "getProfile P nostr sched1 sched2 pk =
     (let filters = profile_filters pk;
          evs = getProfileEvents P nostr filters
      in case profile_metadata P evs (empty_profile, 0) of
           Inl e \<Rightarrow> Some (Inl e)
         | Inr (profileInfo, createdAt) \<Rightarrow>
             await (getFollowingInfo nostr sched1 pk) (\<lambda>followingInfo.
               await
                 (case followingInfo of
                    None \<Rightarrow> Some (Inr profileInfo)
                  | Some info \<Rightarrow>
                      (case json_parse P (content info) of
                         None \<Rightarrow> Some (Inl SyntaxError)
                       | Some relayData \<Rightarrow>
                           (case profile_relays (js_for_in relayData) [] of
                              Inl e \<Rightarrow> Some (Inl e)
                            | Inr rs \<Rightarrow>
                                Some (Inr (profileInfo\<lparr>relays := Some rs,
                                  following := Some (profile_following (tags info))\<rparr>)))))
                 (\<lambda>profileInfo1.
                    await (getFollowerInfo nostr sched2 pk) (\<lambda>followerInfo.
                      Some (Inr (profileInfo1\<lparr>follower :=
                        Some (map (\<lambda>f. \<lparr>contact_name = [], contact_publicKey = f\<rparr>)
                          followerInfo)\<rparr>))))))"

definition getMyProfile ::
  "platform \<Rightarrow> Nostr \<Rightarrow> (nat \<Rightarrow> nat) \<Rightarrow> (nat \<Rightarrow> nat) \<Rightarrow> (error + ProfileInfo) option" where
  "getMyProfile P nostr sched1 sched2 = getProfile P nostr sched1 sched2 (publicKey nostr)"

definition getOtherProfile ::
  "platform \<Rightarrow> Nostr \<Rightarrow> (nat \<Rightarrow> nat) \<Rightarrow> (nat \<Rightarrow> nat) \<Rightarrow> string
     \<Rightarrow> (error + ProfileInfo) option" where
  "getOtherProfile P nostr sched1 sched2 pk = getProfile P nostr sched1 sched2 (Some pk)"

subsection \<open>Publishing\<close>

definition utf8Encode :: "string \<Rightarrow> byte list" where
  "utf8Encode txt = map of_char txt"

definition eventCommitment :: "platform \<Rightarrow> NostrEvent \<Rightarrow> string" where
  "eventCommitment P event =
     json_stringify P (pubkey event, created_at event, kind event, tags event, content event)"

definition calculateId :: "platform \<Rightarrow> NostrEvent \<Rightarrow> string" where
  "calculateId P event = hexEncode (sha256 P (utf8Encode (eventCommitment P event)))"

definition signId :: "platform \<Rightarrow> Nostr \<Rightarrow> string \<Rightarrow> error + byte list" where
  "signId P nostr i = schnorr_sign P i (privateKey nostr)"

text \<open>
  The loop over the relays: a call of \<^verbatim>\<open>sendEvent\<close> that throws is caught and logged, and
  the loop goes on.
\<close>

definition send_to_relays :: "Relay list \<Rightarrow> NostrEvent \<Rightarrow> world \<Rightarrow> world" where
  "send_to_relays rs event w =
     w\<lparr>sent := sent w @ map (\<lambda>relay. (relay_name relay, event, sendEvent_ok relay event)) rs\<rparr>"

definition sendPost ::
  "platform \<Rightarrow> Nostr \<Rightarrow> string \<Rightarrow> string option \<Rightarrow> string option \<Rightarrow> world
     \<Rightarrow> (error + NostrPost) \<times> world" where
  "sendPost P nostr txt rootRef ref w =
     (let event0 = \<lparr>content = txt, created_at = date_now P (ticks w) div 1000, event_id = [],
                    kind = TEXT_NOTE, pubkey = publicKey nostr, sig = [], tags = []\<rparr>;
          w1 = w\<lparr>ticks := Suc (ticks w)\<rparr>;
          event1 = (if truthy rootRef
                    then event0\<lparr>tags := tags event0 @ [[''e'', the rootRef, [], ''root'']]\<rparr>
                    else event0);
          event2 = (if truthy ref
                    then event1\<lparr>tags := tags event1 @ [[''e'', the ref, [], ''reply'']]\<rparr>
                    else event1);
          event3 = event2\<lparr>event_id := calculateId P event2\<rparr>
      in case signId P nostr (event_id event3) of
           Inl e \<Rightarrow> (Inl e, w1)
         | Inr s \<Rightarrow>
             (let event = event3\<lparr>sig := decoder_decode (encode s)\<rparr>
              in (Inr (eventToPost event), send_to_relays (relayInstances nostr) event w1)))"

definition sendTextPost ::
  "platform \<Rightarrow> Nostr \<Rightarrow> string \<Rightarrow> world \<Rightarrow> (error + NostrPost) \<times> world" where
  "sendTextPost P nostr txt w = sendPost P nostr txt None None w"

definition sendReplyPost ::
  "platform \<Rightarrow> Nostr \<Rightarrow> string \<Rightarrow> NostrPost \<Rightarrow> world \<Rightarrow> (error + NostrPost) \<times> world" where
  "sendReplyPost P nostr txt post w = sendPost P nostr txt (rootReference post) (reference post) w"

text \<open>
  The loop of \<open>sendThreadPost\<close> over the items left after \<^verbatim>\<open>posts.shift()\<close>, from index
  \<open>i\<close> on. \<open>firstPost\<close> is an object and so never falsy.
\<close>

fun thread_loop ::
  "platform \<Rightarrow> Nostr \<Rightarrow> NostrPost \<Rightarrow> nat \<Rightarrow> string list \<Rightarrow> NostrPost option \<Rightarrow> world
     \<Rightarrow> (error + unit) \<times> world" where
  "thread_loop P nostr firstPost i [] lastPost w = (Inr (), w)"
| "thread_loop P nostr firstPost i (txt # txts) lastPost w =
     (if i = 0 then
        (case sendPost P nostr txt (Some (post_id firstPost)) None w of
           (Inl e, w') \<Rightarrow> (Inl e, w')
         | (Inr post, w') \<Rightarrow> thread_loop P nostr firstPost (Suc i) txts (Some post) w')
      else
        (case lastPost of
           None \<Rightarrow> (Inl (Thrown ''Last post not found''), w)
         | Some lp \<Rightarrow>
             (case sendPost P nostr txt (Some []) (Some (post_id lp)) w of
                (Inl e, w') \<Rightarrow> (Inl e, w')
              | (Inr post, w') \<Rightarrow> thread_loop P nostr firstPost (Suc i) txts (Some post) w')))"

text \<open>
  \<open>sendThreadPost\<close> returns its outcome, the caller's array as the call leaves it, and
  the world.
\<close>

definition sendThreadPost ::
  "platform \<Rightarrow> Nostr \<Rightarrow> string list \<Rightarrow> world \<Rightarrow> (error + unit) \<times> string list \<times> world" where
  "sendThreadPost P nostr posts w =
     (if length posts < 2 then (Inl (Thrown ''At least 2 posts required''), posts, w)
      else
        (let first = hd posts;
             posts' = tl posts
         in case sendTextPost P nostr first w of
              (Inl e, w') \<Rightarrow> (Inl e, posts', w')
            | (Inr firstPost, w') \<Rightarrow>
                (case thread_loop P nostr firstPost 0 posts' None w' of
                   (res, w'') \<Rightarrow> (res, posts', w''))))"

subsection \<open>The key setters\<close>

text \<open>The client as \<^verbatim>\<open>new Nostr()\<close> leaves it.\<close>

definition new_Nostr :: Nostr where
  "new_Nostr = \<lparr>relayInstances = [], privateKey = None, publicKey = None, debugMode = False\<rparr>"

text \<open>
  \<^verbatim>\<open>if (value.substring(0, 4) === 'nsec') value = this.getKeyFromNip19(value)\<close>, and the same
  with \<^verbatim>\<open>npub\<close> in the other setter.
\<close>

definition from_nip19 :: "string \<Rightarrow> string \<Rightarrow> error + string" where
  "from_nip19 tag v = (if take 4 v = tag then getKeyFromNip19 v else Inr v)"

text \<open>
  A setter returns the error it throws, if any, and the client as it leaves it. The
  setter of the private key assigns \<^verbatim>\<open>_privateKey\<close> before it derives the public key.
\<close>

definition set_privateKey :: "platform \<Rightarrow> string \<Rightarrow> Nostr \<Rightarrow> error option \<times> Nostr" where
  "set_privateKey P v nostr =
     (case from_nip19 ''nsec'' v of
        Inl e \<Rightarrow> (Some e, nostr)
      | Inr v' \<Rightarrow>
          if v' \<noteq> [] then
            (let nostr1 = nostr\<lparr>privateKey := Some v'\<rparr> in
             case schnorr_getPublicKey P v' of
               Inl e \<Rightarrow> (Some e, nostr1)
             | Inr bs \<Rightarrow> (None, nostr1\<lparr>publicKey := Some (decoder_decode (encode bs))\<rparr>))
          else (None, nostr))"

definition set_publicKey :: "string \<Rightarrow> Nostr \<Rightarrow> error option \<times> Nostr" where
  "set_publicKey v nostr =
     (case from_nip19 ''npub'' v of
        Inl e \<Rightarrow> (Some e, nostr)
      | Inr v' \<Rightarrow> (None, nostr\<lparr>publicKey := Some v'\<rparr>))"

text \<open>
  The invariant of the specification: once a private key is stored, the stored public
  key is the hex rendering of the public key that the schnorr scheme derives from it.
\<close>

definition key_inv :: "platform \<Rightarrow> Nostr \<Rightarrow> bool" where
  "key_inv P nostr =
     (case privateKey nostr of
        None \<Rightarrow> True
      | Some k \<Rightarrow>
          (case schnorr_getPublicKey P k of
             Inl e \<Rightarrow> False
           | Inr bs \<Rightarrow> publicKey nostr = Some (decoder_decode (encode bs))))"

section \<open>Invariants of the multiplexer\<close>

text \<open>What a pending promise still holds for the consumer, and its weight in the termination measure.\<close>

definition pending :: "indexed option \<Rightarrow> NostrEvent list" where
  "pending s =
     (case s of
        None \<Rightarrow> []
      | Some r \<Rightarrow> (case res_value r of Done \<Rightarrow> [] | Value e \<Rightarrow> [e]))"

definition fuel :: "mux \<Rightarrow> nat" where
  "fuel st =
     (\<Sum>it\<leftarrow>relayIterators st. Suc (length (rest it)))
     + (\<Sum>s\<leftarrow>indexedPromises st. length (pending s))"

text \<open>
  For every active source of the generator, the items it has not delivered yet: the item
  of its pending promise, if any, and the items left in its iterator.
\<close>

definition queues :: "mux \<Rightarrow> NostrEvent list list" where
  "queues st = map (\<lambda>(it, s). pending s @ rest it) (zip (relayIterators st) (indexedPromises st))"


text \<open>
  The invariant, for sources that started as \<open>srcs\<close>: the two arrays have the same
  length, the promise at position \<open>p\<close> carries the index \<open>p\<close> and belongs to the iterator
  at position \<open>p\<close>, a source that reported exhaustion has nothing left, and for every
  source the calls of \<^verbatim>\<open>next()\<close> made so far, the items it has left and the item
  pending add up to one call per item and one for the report of exhaustion.
\<close>

definition slot_inv :: "NostrEvent list list \<Rightarrow> nat list \<Rightarrow> nat \<Rightarrow> relay_iterator \<Rightarrow> indexed option \<Rightarrow> bool" where
  "slot_inv srcs calls p it s =
     (case s of
        None \<Rightarrow> False
      | Some r \<Rightarrow>
          res_i r = int p \<and> src_relay it < length srcs
          \<and> (res_value r = Done \<longrightarrow> rest it = [])
          \<and> count_list calls (src_relay it) + length (rest it) + length (pending s)
              = Suc (length (srcs ! src_relay it)))"

definition mux_inv :: "NostrEvent list list \<Rightarrow> mux \<Rightarrow> bool" where
  "mux_inv srcs st \<longleftrightarrow>
     length (indexedPromises st) = length (relayIterators st)
     \<and> (\<forall>p < length (relayIterators st).
           slot_inv srcs (next_calls st) p (relayIterators st ! p) (indexedPromises st ! p))
     \<and> distinct (map src_relay (relayIterators st))
     \<and> (\<forall>j < length srcs. j \<notin> src_relay ` set (relayIterators st) \<longrightarrow>
           count_list (next_calls st) j = Suc (length (srcs ! j)))"

text \<open>The state of a run that suppresses duplicates, read off a run that does not.\<close>

definition dedup_state :: "mux \<Rightarrow> mux" where
  "dedup_state st =
     st\<lparr>yielded := first_arrivals [] (yielded st),
        yieldedEventIds := map event_id (first_arrivals [] (yielded st))\<rparr>"

definition dec_index :: "indexed option \<Rightarrow> indexed option" where
  "dec_index s = map_option (\<lambda>r. r\<lparr>res_i := res_i r - 1\<rparr>) s"

text \<open>The effect of the turn on what has been yielded.\<close>

definition yield_event :: "bool \<Rightarrow> NostrEvent \<Rightarrow> mux \<Rightarrow> mux" where
  "yield_event unique ev st =
     (if \<not> unique \<or> event_id ev \<notin> set (yieldedEventIds st)
      then st\<lparr>yielded := yielded st @ [ev],
              yieldedEventIds :=
                (if unique then yieldedEventIds st @ [event_id ev] else yieldedEventIds st)\<rparr>
      else st)"

text \<open>The two ways a turn changes the arrays, as the invariant lets them be written.\<close>

definition drop_source :: "nat \<Rightarrow> mux \<Rightarrow> mux" where
  "drop_source p st =
     st\<lparr>relayIterators := take p (relayIterators st) @ drop (Suc p) (relayIterators st),
        indexedPromises := take p (indexedPromises st)
          @ map dec_index (drop (Suc p) (indexedPromises st))\<rparr>"

definition rearm :: "nat \<Rightarrow> mux \<Rightarrow> mux" where
  "rearm p st =
     st\<lparr>relayIterators := (relayIterators st)[p := snd (iter_next (relayIterators st ! p))],
        indexedPromises := (indexedPromises st)
          [p := Some \<lparr>res_value = fst (iter_next (relayIterators st ! p)), res_i = int p\<rparr>],
        next_calls := next_calls st @ [src_relay (relayIterators st ! p)]\<rparr>"

section \<open>Auxiliary notions for the client\<close>

text \<open>The event that \<open>sendPost\<close> builds, before it is signed.\<close>

definition unsigned_event ::
  "platform \<Rightarrow> Nostr \<Rightarrow> string \<Rightarrow> string option \<Rightarrow> string option \<Rightarrow> world \<Rightarrow> NostrEvent" where
  "unsigned_event P nostr txt rootRef ref w =
     (let ev = \<lparr>content = txt, created_at = date_now P (ticks w) div 1000, event_id = [],
                 kind = TEXT_NOTE, pubkey = publicKey nostr, sig = [],
                 tags = (if truthy rootRef then [[''e'', the rootRef, [], ''root'']] else [])
                      @ (if truthy ref then [[''e'', the ref, [], ''reply'']] else [])\<rparr>
      in ev\<lparr>event_id := calculateId P ev\<rparr>)"

section \<open>Auxiliary notions for the codec\<close>

text \<open>The number that a list of digits of \<open>b\<close> bits each denotes, most significant first.\<close>

definition digits_val :: "nat \<Rightarrow> nat list \<Rightarrow> nat" where
  "digits_val b ds = foldl (\<lambda>a d. a * 2 ^ b + d) 0 ds"

text \<open>
  The invariant of the loop of \<^verbatim>\<open>convertRadix2\<close> after the data \<open>seen\<close>: the digits
  pushed so far and the carry together denote what was read.
\<close>

definition radix_inv :: "nat \<Rightarrow> nat \<Rightarrow> nat list \<Rightarrow> nat \<times> nat \<times> nat list \<Rightarrow> bool" where
  "radix_inv from to seen st =
     (case st of (carry, pos, res) \<Rightarrow>
        carry < 2 ^ pos \<and> pos < to
        \<and> digits_val to res * 2 ^ pos + carry = digits_val from seen
        \<and> to * length res + pos = from * length seen
        \<and> (\<forall>d \<in> set res. d < 2 ^ to))"

section \<open>Concrete inputs\<close>

text \<open>Events and relays on which the theorems below are instantiated.\<close>

definition sample_signature :: string where
  "sample_signature = concat (replicate 64 ''5a'')"

definition sample_event :: "string \<Rightarrow> NostrEvent" where
  "sample_event s =
     \<lparr>content = ''hello'', created_at = 1700000000, event_id = s, kind = TEXT_NOTE,
      pubkey = Some ''ab'', sig = sample_signature, tags = []\<rparr>"

definition sample_relay :: "string \<Rightarrow> string list \<Rightarrow> Relay" where
  "sample_relay n xs =
     \<lparr>relay_name = n, subscribePromise = (\<lambda>_. map sample_event xs),
      events = (\<lambda>_. map sample_event xs), sendEvent_ok = (\<lambda>_. True)\<rparr>"

definition relay_A :: Relay where
  "relay_A = sample_relay ''wss://a'' [''1'', ''2'', ''3'']"

definition relay_B :: Relay where
  "relay_B = sample_relay ''wss://b'' [''2'', ''3'', ''4'']"





text \<open>
  A platform for the instances: stand-ins with the interface of the real functions. The
  digest has 32 bytes and a signature 64; signing needs a private key; the parser
  agrees with \<^verbatim>\<open>JSON.parse\<close> on the three strings the instances use (\<^verbatim>\<open>{}\<close>, \<^verbatim>\<open>null\<close>
  and \<^verbatim>\<open>hello\<close>, which is not JSON).
\<close>

definition sample_platform :: platform where
  "sample_platform =
     \<lparr>sha256 = (\<lambda>bs. take 32 (bs @ replicate 32 0)),
      schnorr_sign = (\<lambda>m k. case k of None \<Rightarrow> Inl (Thrown ''private key missing'')
                               | Some _ \<Rightarrow> Inr (replicate 64 0x5A)),
      schnorr_getPublicKey = (\<lambda>k. if length k = 64 then Inr (take 32 (map of_char k))
                                  else Inl (Thrown ''invalid private key'')),
      schnorr_verify = (\<lambda>sg i p. sg = sample_signature),
      json_stringify = (\<lambda>(pk, c, k, tg, ct). ct @ concat (concat tg)),
      json_parse = (\<lambda>s. if s = ''{}'' then Some (JObj [])
                        else if s = ''null'' then Some JNull else None),
      date_now = (\<lambda>n. 1700000000000 + 1000 * int n)\<rparr>"

text \<open>
  The same platform with a signer that reads its message as hex: it throws on a message
  that is not hex, and on one that is not 32 bytes.
\<close>

definition strict_platform :: platform where
  "strict_platform =
     sample_platform\<lparr>schnorr_sign :=
       (\<lambda>m k. case k of
                None \<Rightarrow> Inl (Thrown ''private key missing'')
              | Some _ \<Rightarrow>
                  (case hexToBytes m of
                     Inl e \<Rightarrow> Inl e
                   | Inr bs \<Rightarrow> if length bs = 32 then Inr (replicate 64 0x5A)
                              else Inl (Thrown ''Expected 32 bytes'')))\<rparr>"

definition sample_client :: Nostr where
  "sample_client =
     \<lparr>relayInstances = [relay_A], privateKey = Some (replicate 64 CHR ''1''),
      publicKey = Some (replicate 64 CHR ''2''), debugMode = False\<rparr>"

definition start_world :: world where
  "start_world = \<lparr>sent = [], ticks = 0\<rparr>"

text \<open>The events that \<open>sendThreadPost\<close> sends for the items a, b and c.\<close>

definition thread_events :: "NostrEvent list" where
  "thread_events =
     map (fst \<circ> snd)
       (sent (snd (snd (sendThreadPost sample_platform sample_client [''a'', ''b'', ''c'']
          start_world))))"

text \<open>
  An event whose signature does not verify, a relay that hands it out and a client
  connected to that relay only.
\<close>

definition forged_event :: NostrEvent where
  "forged_event = (sample_event ''9'')\<lparr>sig := ''00''\<rparr>"

definition forging_relay :: Relay where
  "forging_relay =
     \<lparr>relay_name = ''wss://f'', subscribePromise = (\<lambda>_. [forged_event]),
      events = (\<lambda>_. [forged_event]), sendEvent_ok = (\<lambda>_. True)\<rparr>"

definition forging_client :: Nostr where
  "forging_client = sample_client\<lparr>relayInstances := [forging_relay]\<rparr>"

text \<open>A private key in hex, and the client after setting it and then a public key.\<close>

definition sample_key :: string where
  "sample_key = replicate 64 CHR ''7''"

definition keyed_client :: Nostr where
  "keyed_client = snd (set_privateKey sample_platform sample_key new_Nostr)"

definition rekeyed_client :: Nostr where
  "rekeyed_client = snd (set_publicKey ''ff'' keyed_client)"

section \<open>The hex encoders render bytes as lowercase hex\<close>

lemma unat_drop4: "unat (drop_bit 4 (b::byte)) = unat b div 16"
  by (simp add: drop_bit_eq_div unat_div)

lemma unat_and15: "unat ((b::byte) AND 0x0f) = unat b mod 16"
proof -
  have "(b AND 0x0f) = take_bit 4 b" 
    by (simp add: take_bit_eq_mask mask_eq_exp_minus_1)
  thus ?thesis by (simp add: take_bit_eq_mod unat_mod)
qed

lemma lt16_cases:
  fixes n :: nat
  assumes "n < 16"
  shows "n \<in> {15, 14, 13, 12} \<or> n \<in> {11, 10, 9, 8} \<or> n \<in> {7, 6, 5, 4} \<or> n \<in> {3, 2, 1, 0}"
  using assms by simp presburger

lemma hexChar_digit: "n < 16 \<Longrightarrow> hexChar n = Some [hex_digit n]"
  by (drule lt16_cases) (elim disjE insertE emptyE; hypsubst; code_simp)

lemma table_digit: "n < 16 \<Longrightarrow> typed_get hexTable n = Some (of_char (hex_digit n))"
  by (drule lt16_cases) (elim disjE insertE emptyE; hypsubst; code_simp)

lemma char_of_digit: "n < 16 \<Longrightarrow> char_of (unat (of_char (hex_digit n) :: byte)) = hex_digit n"
  by (drule lt16_cases) (elim disjE insertE emptyE; hypsubst; code_simp)

lemma hex_digit_in: "n < 16 \<Longrightarrow> hex_digit n \<in> set ''0123456789abcdef''"
  by (drule lt16_cases) (elim disjE insertE emptyE; hypsubst; code_simp)

lemma byte_div16: "unat (b::byte) div 16 < 16"
proof -
  have "unat b < 256" using unsigned_less [of b] by simp
  thus ?thesis by simp
qed

lemma hexEncode_body_eq: "hexEncode_body str c = str @ hex_of_byte c"
  by (simp add: hexEncode_body_def str_add_def unat_drop4 unat_and15 hexChar_digit
      byte_div16 hex_of_byte_def)

lemma foldl_hexEncode: "foldl hexEncode_body acc buf = acc @ hex_render buf"
  by (induction buf arbitrary: acc) (simp_all add: hex_render_def hexEncode_body_eq)

lemma hexEncode_render: "hexEncode buf = hex_render buf"
  by (simp add: hexEncode_def foldl_hexEncode)

lemma length_hex_render: "length (hex_render bs) = 2 * length bs"
  by (induction bs) (simp_all add: hex_render_def hex_of_byte_def)

lemma set_hex_render: "set (hex_render bs) \<subseteq> set ''0123456789abcdef''"
proof (induction bs)
  case Nil
  show ?case by (simp add: hex_render_def)
next
  case (Cons b bs)
  have "set (hex_of_byte b) \<subseteq> set ''0123456789abcdef''"
    using hex_digit_in [of "unat b div 16"] hex_digit_in [of "unat b mod 16"] byte_div16 [of b]
    by (simp add: hex_of_byte_def)
  with Cons show ?case by (simp add: hex_render_def)
qed

lemma length_encode_body [simp]: "length (encode_body src dst i) = length dst"
  by (simp add: encode_body_def typed_set_def Let_def)

lemma encode_body_beyond: "length dst \<le> 2 * i \<Longrightarrow> encode_body src dst i = dst"
  by (simp add: encode_body_def typed_set_def Let_def)

lemma typed_set_at:
  "length pre = k \<Longrightarrow> typed_set (pre @ x # post) k (Some v) = pre @ v # post"
  by (auto simp: typed_set_def)

lemma length_concat_enc_pair: "length (concat (map enc_pair xs)) = 2 * length xs"
  by (induction xs) (simp_all add: enc_pair_def)

lemma encode_body_in:
  assumes "i < length src" "length pre = 2 * i"
  shows "encode_body src (pre @ 0 # 0 # post) i = (pre @ enc_pair (src ! i)) @ post"
proof -
  let ?d1 = "of_char (hex_digit (unat (src ! i) div 16)) :: byte"
  let ?d2 = "of_char (hex_digit (unat (src ! i) mod 16)) :: byte"
  have v: "typed_get src i = Some (src ! i)"
    using assms(1) by (simp add: typed_get_def)
  have t1: "typed_get hexTable (shr4 (Some (src ! i))) = Some ?d1"
    by (simp add: shr4_def unat_drop4 table_digit byte_div16)
  have t2: "typed_get hexTable (and0f (Some (src ! i))) = Some ?d2"
    by (simp add: and0f_def unat_and15 table_digit)
  have s1: "typed_set (pre @ 0 # 0 # post) (i * 2) (Some ?d1) = pre @ ?d1 # 0 # post"
    using assms(2) by (intro typed_set_at) simp
  have s2: "typed_set ((pre @ [?d1]) @ 0 # post) (i * 2 + 1) (Some ?d2) = (pre @ [?d1]) @ ?d2 # post"
    using assms(2) by (intro typed_set_at) simp
  show ?thesis
    using s2 by (simp add: encode_body_def Let_def v t1 t2 s1 enc_pair_def)
qed

lemma foldl_encode_front:
  "k \<le> length src \<Longrightarrow>
   foldl (encode_body src) (replicate (2 * length src) 0) [0..<k] =
   concat (map enc_pair (take k src)) @ replicate (2 * (length src - k)) 0"
proof (induction k)
  case 0
  show ?case by simp
next
  case (Suc k)
  let ?pre = "concat (map enc_pair (take k src))"
  have len: "length ?pre = 2 * k"
    using Suc.prems by (simp add: length_concat_enc_pair)
  obtain m where m: "length src - k = Suc m"
    using Suc.prems by (cases "length src - k") simp_all
  have m': "length src - Suc k = m" using m by simp
  have "foldl (encode_body src) (replicate (2 * length src) 0) [0..<Suc k] =
        encode_body src (?pre @ 0 # 0 # replicate (2 * m) 0) k"
    using Suc by (simp add: m)
  also have "\<dots> = (?pre @ enc_pair (src ! k)) @ replicate (2 * m) 0"
    using Suc.prems len by (intro encode_body_in) simp_all
  also have "?pre @ enc_pair (src ! k) = concat (map enc_pair (take (Suc k) src))"
    using Suc.prems by (simp add: take_Suc_conv_app_nth)
  finally show ?case by (simp only: m')
qed

lemma foldl_encode_back:
  "length dst \<le> 2 * n \<Longrightarrow> foldl (encode_body src) dst [n..<n + m] = dst"
proof (induction m)
  case 0 show ?case by simp
next
  case (Suc m)
  then show ?case by (simp add: encode_body_beyond)
qed

lemma encode_eq: "encode src = concat (map enc_pair src)"
proof -
  let ?n = "length src"
  have "[0..<2 * ?n] = [0..<?n] @ [?n..<?n + ?n]"
    by (metis le_add1 mult_2 upt_add_eq_append zero_le)
  hence "encode src = foldl (encode_body src)
           (foldl (encode_body src) (replicate (2 * ?n) 0) [0..<?n]) [?n..<?n + ?n]"
    by (simp add: encode_def mult.commute)
  also have "\<dots> = foldl (encode_body src) (concat (map enc_pair src)) [?n..<?n + ?n]"
    by (simp add: foldl_encode_front)
  also have "\<dots> = concat (map enc_pair src)"
  proof (rule foldl_encode_back)
    show "length (concat (map enc_pair src)) \<le> 2 * ?n"
      by (simp add: length_concat_enc_pair)
  qed
  finally show ?thesis .
qed

lemma decode_enc_pair: "decoder_decode (enc_pair b) = hex_of_byte b"
  using byte_div16 [of b]
  by (simp add: decoder_decode_def enc_pair_def hex_of_byte_def char_of_digit)

lemma decode_encode_render: "decoder_decode (encode src) = hex_render src"
proof -
  have "decoder_decode (concat (map enc_pair src)) = hex_render src"
    using decode_enc_pair
    by (induction src) (simp_all add: hex_render_def decoder_decode_def)
  thus ?thesis by (simp add: encode_eq)
qed


text \<open>
  Claim C7. For every byte array, \<open>encode\<close> (encode.ts, used for public keys and
  signatures) and \<open>Nostr.hexEncode\<close> (used for event ids) both return the standard
  lowercase hex rendering of the bytes, high nibble first: exactly two characters per
  byte, each of them one of 0-9 and a-f.
\<close>

theorem hex_encoders_exact:
  "decoder_decode (encode src) = hex_render src
   \<and> hexEncode src = hex_render src
   \<and> length (encode src) = 2 * length src
   \<and> length (hexEncode src) = 2 * length src
   \<and> set (decoder_decode (encode src)) \<subseteq> set ''0123456789abcdef''
   \<and> set (hexEncode src) \<subseteq> set ''0123456789abcdef''"
proof (intro conjI)
  show "decoder_decode (encode src) = hex_render src"
    by (rule decode_encode_render)
  show "hexEncode src = hex_render src"
    by (rule hexEncode_render)
  show "length (encode src) = 2 * length src"
    by (simp add: encode_eq length_concat_enc_pair)
  show "length (hexEncode src) = 2 * length src"
    by (simp add: hexEncode_render length_hex_render)
  show "set (decoder_decode (encode src)) \<subseteq> set ''0123456789abcdef''"
    unfolding decode_encode_render by (rule set_hex_render)
  show "set (hexEncode src) \<subseteq> set ''0123456789abcdef''"
    unfolding hexEncode_render by (rule set_hex_render)
qed

theorem hex_encoders_exact_witness:
  "decoder_decode (encode [0x00, 0xAB, 0xFF, 0x10]) = ''00abff10''
   \<and> hexEncode [0x00, 0xAB, 0xFF, 0x10] = ''00abff10''"
proof -
  have "hex_render [0x00, 0xAB, 0xFF, 0x10] = ''00abff10''"
    by code_simp
  thus ?thesis
    using hex_encoders_exact [of "[0x00, 0xAB, 0xFF, 0x10]"] by simp
qed

section \<open>Hex strings are read back as the bytes they render\<close>

lemma hex_value_digit: "n < 16 \<Longrightarrow> hex_value (hex_digit n) = Some n"
  by (drule lt16_cases) (elim disjE insertE emptyE; hypsubst; code_simp)

lemma byte_split: "of_nat (16 * (unat b div 16) + unat b mod 16) = b" for b :: byte
  by simp

lemma hexToBytes_render: "hexToBytes (hex_render bs) = Inr bs"
proof (induction bs)
  case Nil
  show ?case by (simp add: hex_render_def)
next
  case (Cons b bs)
  have "hex_render (b # bs)
      = hex_digit (unat b div 16) # hex_digit (unat b mod 16) # hex_render bs"
    by (simp add: hex_render_def hex_of_byte_def)
  moreover have "\<not> odd (length (hex_render bs))"
    by (simp add: length_hex_render)
  ultimately show ?case
    using Cons byte_div16 [of b] by (simp add: hex_value_digit byte_split)
qed

lemma hex_char_digit:
  assumes "c \<in> set ''0123456789abcdef''"
  shows "\<exists>n < 16. c = hex_digit n"
proof -
  have "\<forall>c \<in> set ''0123456789abcdef''. \<exists>n \<in> set [0..<16]. c = hex_digit n"
    by code_simp
  with assms show ?thesis by auto
qed

lemma hex_pair_byte:
  assumes "h < 16" "l < 16"
  shows "hex_of_byte (of_nat (16 * h + l)) = [hex_digit h, hex_digit l]"
proof -
  have "16 * h + l < 256" using assms by simp
  hence "unat (of_nat (16 * h + l) :: byte) = 16 * h + l"
    by (simp only: unat_of_nat) simp
  with assms show ?thesis
    by (simp add: hex_of_byte_def)
qed

lemma lowercase_hex_render:
  "even (length k) \<Longrightarrow> set k \<subseteq> set ''0123456789abcdef'' \<Longrightarrow>
   \<exists>bs. k = hex_render bs \<and> 2 * length bs = length k"
proof (induction k rule: induct_list012)
  case 1
  have "[] = hex_render []" by (simp add: hex_render_def)
  then show ?case by auto
next
  case (2 c)
  then show ?case by simp
next
  case (3 c1 c2 cs)
  from "3.prems" have "c1 \<in> set ''0123456789abcdef''" "c2 \<in> set ''0123456789abcdef''"
    by auto
  then obtain h l where hl: "h < 16" "c1 = hex_digit h" "l < 16" "c2 = hex_digit l"
    using hex_char_digit by metis
  from "3.prems" have "even (length cs)" "set cs \<subseteq> set ''0123456789abcdef''"
    by auto
  with "3.IH"(1) obtain bs where bs: "cs = hex_render bs" "2 * length bs = length cs"
    by blast
  have "c1 # c2 # cs = hex_render (of_nat (16 * h + l) # bs)"
    using hl bs(1) hex_pair_byte [of h l] by (simp add: hex_render_def)
  moreover have "2 * length (of_nat (16 * h + l) # bs :: byte list) = length (c1 # c2 # cs)"
    using bs(2) by simp
  ultimately show ?case by blast
qed

section \<open>The multiplexer: termination, bookkeeping and suppression of duplicates\<close>

subsection \<open>Lists with one element removed or replaced\<close>

lemma sum_list_remove_nth:
  fixes f :: "'a \<Rightarrow> 'b::comm_monoid_add"
  assumes "p < length xs"
  shows "sum_list (map f xs) = f (xs ! p) + sum_list (map f (take p xs @ drop (Suc p) xs))"
proof -
  have "sum_list (map f xs) = sum_list (map f (take p xs @ xs ! p # drop (Suc p) xs))"
    using assms by (simp add: id_take_nth_drop [symmetric])
  thus ?thesis by (simp add: ac_simps)
qed

lemma sum_list_update_nth:
  fixes f :: "'a \<Rightarrow> 'b::comm_monoid_add"
  assumes "p < length xs"
  shows "sum_list (map f (xs[p := y])) + f (xs ! p) = sum_list (map f xs) + f y"
proof -
  have "sum_list (map f (xs[p := y])) = f y + sum_list (map f (take p xs @ drop (Suc p) xs))"
    using assms by (simp add: upd_conv_take_nth_drop ac_simps)
  thus ?thesis using sum_list_remove_nth [OF assms, of f] by (simp add: ac_simps)
qed

lemma splice1_nat: "p < length xs \<Longrightarrow> splice1 xs (int p) = take p xs @ drop (Suc p) xs"
  by (simp add: splice1_def Let_def min_def)

lemma js_get_nat: "p < length xs \<Longrightarrow> js_get xs (int p) = Some (xs ! p)"
  by (simp add: js_get_def)

lemma js_set_nat: "p < length xs \<Longrightarrow> js_set xs p v = xs[p := Some v]"
  by (simp add: js_set_def)

lemma decrement_from_0:
  "\<forall>s \<in> set ps. s \<noteq> None \<Longrightarrow> decrement_from 0 ps = Inr (map dec_index ps)"
  by (induction ps) (auto simp: dec_index_def)

lemma decrement_from_append:
  "length xs = p \<Longrightarrow> \<forall>s \<in> set ys. s \<noteq> None \<Longrightarrow>
   decrement_from p (xs @ ys) = Inr (xs @ map dec_index ys)"
proof (induction xs arbitrary: p)
  case Nil
  then show ?case by (simp add: decrement_from_0)
next
  case (Cons x xs)
  then obtain q where "p = Suc q" "length xs = q" by auto
  with Cons show ?case by simp
qed

lemma reindex_nat:
  "length xs = p \<Longrightarrow> \<forall>s \<in> set ys. s \<noteq> None \<Longrightarrow>
   reindex (int p) (xs @ ys) = Inr (xs @ map dec_index ys)"
  by (simp add: reindex_def decrement_from_append)

lemma pending_dec_index [simp]: "pending (dec_index s) = pending s"
  by (cases s) (simp_all add: pending_def dec_index_def)

subsection \<open>One turn of the loop under the invariant\<close>

lemma mux_inv_slot:
  assumes "mux_inv srcs st" "p < length (relayIterators st)"
  obtains r where "indexedPromises st ! p = Some r" "res_i r = int p"
    "src_relay (relayIterators st ! p) < length srcs"
    "res_value r = Done \<Longrightarrow> rest (relayIterators st ! p) = []"
    "count_list (next_calls st) (src_relay (relayIterators st ! p))
       + length (rest (relayIterators st ! p)) + length (pending (Some r))
     = Suc (length (srcs ! src_relay (relayIterators st ! p)))"
proof -
  from assms have "slot_inv srcs (next_calls st) p (relayIterators st ! p) (indexedPromises st ! p)"
    by (simp add: mux_inv_def)
  then show ?thesis
    by (cases "indexedPromises st ! p") (auto simp: slot_inv_def intro: that)
qed

lemma mux_inv_no_holes:
  assumes "mux_inv srcs st"
  shows "\<forall>s \<in> set (indexedPromises st). s \<noteq> None"
proof
  fix s assume "s \<in> set (indexedPromises st)"
  then obtain p where p: "p < length (indexedPromises st)" "indexedPromises st ! p = s"
    by (auto simp: in_set_conv_nth)
  with assms have "p < length (relayIterators st)" by (simp add: mux_inv_def)
  from mux_inv_slot [OF assms this] p show "s \<noteq> None" by auto
qed

lemma loop_body_Done:
  assumes inv: "mux_inv srcs st" and p: "p < length (relayIterators st)"
    and r: "indexedPromises st ! p = Some r" "res_value r = Done"
  shows "loop_body u p st = Inr (drop_source p st)"
proof -
  have len: "length (indexedPromises st) = length (relayIterators st)"
    using inv by (simp add: mux_inv_def)
  have i: "res_i r = int p"
    using mux_inv_slot [OF inv p] r by auto
  have "\<forall>s \<in> set (drop (Suc p) (indexedPromises st)). s \<noteq> None"
    using mux_inv_no_holes [OF inv] by (auto dest: in_set_dropD)
  moreover have "length (take p (indexedPromises st)) = p"
    using p len by simp
  ultimately have "reindex (int p) (take p (indexedPromises st) @ drop (Suc p) (indexedPromises st))
      = Inr (take p (indexedPromises st) @ map dec_index (drop (Suc p) (indexedPromises st)))"
    by (rule reindex_nat [rotated])
  then show ?thesis
    using p len r i by (simp add: loop_body_def splice1_nat drop_source_def)
qed

lemma yield_event_frame [simp]:
  "relayIterators (yield_event u ev st) = relayIterators st"
  "indexedPromises (yield_event u ev st) = indexedPromises st"
  "next_calls (yield_event u ev st) = next_calls st"
  by (simp_all add: yield_event_def)

lemma loop_body_Value:
  assumes inv: "mux_inv srcs st" and p: "p < length (relayIterators st)"
    and r: "indexedPromises st ! p = Some r" "res_value r = Value ev"
  shows "loop_body u p st = Inr (rearm p (yield_event u ev st))"
proof -
  have len: "length (indexedPromises st) = length (relayIterators st)"
    using inv by (simp add: mux_inv_def)
  have i: "res_i r = int p"
    using mux_inv_slot [OF inv p] r by auto
  show ?thesis
    using p len r i
    by (simp add: loop_body_def yield_event_def rearm_def js_get_nat js_set_nat Let_def split_beta)
qed

lemma mux_inv_yield_event: "mux_inv srcs (yield_event u ev st) = mux_inv srcs st"
  by (simp add: mux_inv_def)

lemma fuel_yield_event: "fuel (yield_event u ev st) = fuel st"
  by (simp add: fuel_def)

lemma slot_inv_dec_index:
  "slot_inv srcs calls (Suc q) it s \<Longrightarrow> slot_inv srcs calls q it (dec_index s)"
  by (cases s) (auto simp: slot_inv_def dec_index_def pending_def)

lemma mux_inv_drop_source:
  assumes inv: "mux_inv srcs st" and p: "p < length (relayIterators st)"
    and r: "indexedPromises st ! p = Some r" "res_value r = Done"
  shows "mux_inv srcs (drop_source p st)"
proof -
  let ?its = "relayIterators st" and ?ps = "indexedPromises st"
  let ?its' = "take p ?its @ drop (Suc p) ?its"
  let ?ps' = "take p ?ps @ map dec_index (drop (Suc p) ?ps)"
  have len: "length ?ps = length ?its"
    using inv by (simp add: mux_inv_def)
  have slots: "\<And>q. q < length ?its \<Longrightarrow> slot_inv srcs (next_calls st) q (?its ! q) (?ps ! q)"
    using inv by (simp add: mux_inv_def)
  have split: "?its = take p ?its @ ?its ! p # drop (Suc p) ?its"
    using p by (rule id_take_nth_drop)
  have "distinct (map src_relay (take p ?its @ ?its ! p # drop (Suc p) ?its))"
    using inv split by (simp add: mux_inv_def)
  hence dist: "distinct (map src_relay ?its')"
    by simp
  have l1: "length ?ps' = length ?its'"
    using len by simp
  have l2: "\<forall>q < length ?its'. slot_inv srcs (next_calls st) q (?its' ! q) (?ps' ! q)"
  proof (intro allI impI)
    fix q assume q: "q < length ?its'"
    show "slot_inv srcs (next_calls st) q (?its' ! q) (?ps' ! q)"
    proof (cases "q < p")
      case True
      with q p len show ?thesis
        using slots [of q] by (simp add: nth_append)
    next
      case False
      with q p len have "?its' ! q = ?its ! Suc q" "?ps' ! q = dec_index (?ps ! Suc q)"
        "Suc q < length ?its"
        by (auto simp: nth_append min_def)
      then show ?thesis
        using slots [of "Suc q"] by (simp add: slot_inv_dec_index)
    qed
  qed
  have set_its: "set ?its = insert (?its ! p) (set ?its')"
    using split by (metis Un_insert_right list.simps(15) set_append)
  have l4: "\<forall>j < length srcs. j \<notin> src_relay ` set ?its' \<longrightarrow>
      count_list (next_calls st) j = Suc (length (srcs ! j))"
  proof (intro allI impI)
    fix j assume j: "j < length srcs" "j \<notin> src_relay ` set ?its'"
    show "count_list (next_calls st) j = Suc (length (srcs ! j))"
    proof (cases "j = src_relay (?its ! p)")
      case True
      from mux_inv_slot [OF inv p] r True show ?thesis
        by (auto simp: pending_def)
    next
      case False
      with j set_its have "j \<notin> src_relay ` set ?its" by auto
      with inv j show ?thesis by (simp add: mux_inv_def)
    qed
  qed
  show ?thesis
    using l1 l2 dist l4 by (simp add: mux_inv_def drop_source_def)
qed

lemma fuel_drop_source:
  assumes "p < length (relayIterators st)" "length (indexedPromises st) = length (relayIterators st)"
  shows "fuel (drop_source p st) < fuel st"
proof -
  let ?f = "\<lambda>it. Suc (length (rest it))" and ?g = "\<lambda>s. length (pending s)"
  have "sum_list (map ?f (relayIterators st))
      = ?f (relayIterators st ! p)
        + sum_list (map ?f (take p (relayIterators st) @ drop (Suc p) (relayIterators st)))"
    using assms by (intro sum_list_remove_nth) simp
  moreover have "sum_list (map ?g (indexedPromises st))
      = ?g (indexedPromises st ! p)
        + sum_list (map ?g (take p (indexedPromises st) @ drop (Suc p) (indexedPromises st)))"
    using assms by (intro sum_list_remove_nth) simp
  ultimately show ?thesis
    by (simp add: fuel_def drop_source_def comp_def)
qed

lemma iter_next_cases:
  obtains (exhausted) "rest it = []" "iter_next it = (Done, it)"
  | (item) e es where "rest it = e # es" "iter_next it = (Value e, it\<lparr>rest := es\<rparr>)"
  by (cases "rest it") (auto simp: iter_next_def)

lemma src_iter_next [simp]: "src_relay (snd (iter_next it)) = src_relay it"
  by (cases it rule: iter_next_cases) simp_all

lemma mux_inv_rearm:
  assumes inv: "mux_inv srcs st" and p: "p < length (relayIterators st)"
    and r: "indexedPromises st ! p = Some r" "res_value r = Value ev"
  shows "mux_inv srcs (rearm p st)"
proof -
  let ?its = "relayIterators st" and ?ps = "indexedPromises st"
  let ?it = "?its ! p"
  let ?calls' = "next_calls st @ [src_relay ?it]"
  let ?its' = "?its[p := snd (iter_next ?it)]"
  let ?ps' = "?ps[p := Some \<lparr>res_value = fst (iter_next ?it), res_i = int p\<rparr>]"
  have len: "length ?ps = length ?its"
    using inv by (simp add: mux_inv_def)
  have slots: "\<And>q. q < length ?its \<Longrightarrow> slot_inv srcs (next_calls st) q (?its ! q) (?ps ! q)"
    using inv by (simp add: mux_inv_def)
  have dist: "distinct (map src_relay ?its)"
    using inv by (simp add: mux_inv_def)
  have srcs': "map src_relay ?its' = map src_relay ?its"
    using p by (simp add: map_update list_update_same_conv)
  have l2: "\<forall>q < length ?its'. slot_inv srcs ?calls' q (?its' ! q) (?ps' ! q)"
  proof (intro allI impI)
    fix q assume "q < length ?its'"
    hence q: "q < length ?its" by simp
    show "slot_inv srcs ?calls' q (?its' ! q) (?ps' ! q)"
    proof (cases "q = p")
      case True
      from mux_inv_slot [OF inv p] r
      have old: "src_relay ?it < length srcs"
        "count_list (next_calls st) (src_relay ?it) + length (rest ?it) = length (srcs ! src_relay ?it)"
        by (auto simp: pending_def)
      show ?thesis
      proof (cases ?it rule: iter_next_cases)
        case exhausted
        with old True p len show ?thesis
          by (simp add: slot_inv_def pending_def)
      next
        case (item e es)
        with old True p len show ?thesis
          by (simp add: slot_inv_def pending_def)
      qed
    next
      case False
      with dist q p have "src_relay (?its ! q) \<noteq> src_relay ?it"
        by (simp add: distinct_conv_nth)
      with slots [OF q] False show ?thesis
        by (cases "?ps ! q") (simp_all add: slot_inv_def)
    qed
  qed
  have l4: "\<forall>j < length srcs. j \<notin> src_relay ` set ?its' \<longrightarrow>
      count_list ?calls' j = Suc (length (srcs ! j))"
  proof (intro allI impI)
    fix j assume j: "j < length srcs" "j \<notin> src_relay ` set ?its'"
    have "src_relay ` set ?its' = src_relay ` set ?its"
      using srcs' by (metis set_map)
    with j have notin: "j \<notin> src_relay ` set ?its" by simp
    moreover have "src_relay ?it \<in> src_relay ` set ?its"
      using p by simp
    ultimately have "j \<noteq> src_relay ?it" by metis
    with inv j notin show "count_list ?calls' j = Suc (length (srcs ! j))"
      by (simp add: mux_inv_def)
  qed
  show ?thesis
    using len l2 l4 dist srcs' by (simp add: mux_inv_def rearm_def)
qed

lemma fuel_rearm:
  assumes p: "p < length (relayIterators st)"
    and len: "length (indexedPromises st) = length (relayIterators st)"
    and r: "indexedPromises st ! p = Some r" "res_value r = Value ev"
  shows "fuel (rearm p st) < fuel st"
proof -
  let ?its = "relayIterators st" and ?ps = "indexedPromises st"
  let ?it = "?its ! p"
  let ?f = "\<lambda>it. Suc (length (rest it))" and ?g = "\<lambda>s. length (pending s)"
  let ?new = "Some \<lparr>res_value = fst (iter_next ?it), res_i = int p\<rparr>"
  have a: "sum_list (map ?f (?its[p := snd (iter_next ?it)])) + ?f ?it
      = sum_list (map ?f ?its) + ?f (snd (iter_next ?it))"
    using p by (rule sum_list_update_nth)
  have b: "sum_list (map ?g (?ps[p := ?new])) + ?g (?ps ! p) = sum_list (map ?g ?ps) + ?g ?new"
    using p len by (intro sum_list_update_nth) simp
  have c: "?g (?ps ! p) = 1"
    using r by (simp add: pending_def)
  have d: "?f (snd (iter_next ?it)) + ?g ?new = ?f ?it"
    by (cases ?it rule: iter_next_cases) (simp_all add: pending_def)
  show ?thesis
    using a b c d by (simp add: fuel_def rearm_def)
qed



subsection \<open>The loop returns, and invariants of its turns hold at its end\<close>

lemma filter_loop_invariant:
  assumes inv: "mux_inv srcs st" and Q: "Q st"
    and drop: "\<And>s p r. mux_inv srcs s \<Longrightarrow> Q s \<Longrightarrow> p < length (relayIterators s) \<Longrightarrow>
        indexedPromises s ! p = Some r \<Longrightarrow> res_value r = Done \<Longrightarrow> Q (drop_source p s)"
    and arm: "\<And>s p r ev. mux_inv srcs s \<Longrightarrow> Q s \<Longrightarrow> p < length (relayIterators s) \<Longrightarrow>
        indexedPromises s ! p = Some r \<Longrightarrow> res_value r = Value ev \<Longrightarrow>
        Q (rearm p (yield_event u ev s))"
  shows "\<exists>st'. filter_loop u sched k st = Some (Inr st') \<and> mux_inv srcs st' \<and> Q st'
           \<and> relayIterators st' = []"
  using inv Q
proof (induction "fuel st" arbitrary: st k rule: less_induct)
  case less
  show ?case
  proof (cases "relayIterators st = []")
    case True
    with less.prems show ?thesis
      by (subst filter_loop.simps) simp
  next
    case False
    have len: "length (indexedPromises st) = length (relayIterators st)"
      using less.prems(1) by (simp add: mux_inv_def)
    with False have nonempty: "indexedPromises st \<noteq> []" by auto
    define p where "p = sched k mod length (indexedPromises st)"
    have p: "p < length (relayIterators st)"
      using False len by (simp add: p_def)
    obtain r where r: "indexedPromises st ! p = Some r"
      using mux_inv_slot [OF less.prems(1) p] by blast
    have unfold: "filter_loop u sched k st =
        (case loop_body u p st of Inl e \<Rightarrow> Some (Inl e)
         | Inr st' \<Rightarrow> filter_loop u sched (Suc k) st')"
      using False nonempty by (subst filter_loop.simps) (simp add: p_def)
    show ?thesis
    proof (cases "res_value r")
      case Done
      let ?st' = "drop_source p st"
      have "loop_body u p st = Inr ?st'"
        using less.prems(1) p r Done by (rule loop_body_Done)
      moreover have "fuel ?st' < fuel st"
        using p len by (rule fuel_drop_source)
      moreover have "mux_inv srcs ?st'"
        using less.prems(1) p r Done by (rule mux_inv_drop_source)
      moreover have "Q ?st'"
        using less.prems p r Done by (rule drop)
      ultimately show ?thesis
        using less.hyps [of ?st' "Suc k"] unfold by simp
    next
      case (Value ev)
      let ?st' = "rearm p (yield_event u ev st)"
      have "loop_body u p st = Inr ?st'"
        using less.prems(1) p r Value by (rule loop_body_Value)
      moreover have "fuel ?st' < fuel st"
        using fuel_rearm [of p "yield_event u ev st" r ev] p len r Value
        by (simp add: fuel_yield_event)
      moreover have "mux_inv srcs ?st'"
        using mux_inv_rearm [of srcs "yield_event u ev st" p r ev] less.prems(1) p r Value
        by (simp add: mux_inv_yield_event)
      moreover have "Q ?st'"
        using less.prems p r Value by (rule arm)
      ultimately show ?thesis
        using less.hyps [of ?st' "Suc k"] unfold by simp
    qed
  qed
qed

subsection \<open>Suppression of duplicates keeps the first arrival\<close>




lemma dedup_state_frame [simp]:
  "relayIterators (dedup_state st) = relayIterators st"
  "indexedPromises (dedup_state st) = indexedPromises st"
  "next_calls (dedup_state st) = next_calls st"
  by (simp_all add: dedup_state_def)






subsection \<open>The state in which the loop starts\<close>

lemma count_list_upt: "j < n \<Longrightarrow> count_list [0..<n] j = 1"
  by (induction n) (auto simp: less_Suc_eq count_list_0_iff)

lemma mux_start_simps:
  "relayIterators (mux_start its) = map (\<lambda>it. snd (iter_next it)) its"
  "length (indexedPromises (mux_start its)) = length its"
  "yielded (mux_start its) = []"
  "yieldedEventIds (mux_start its) = []"
  "next_calls (mux_start its) = map src_relay its"
  by (simp_all add: mux_start_def Let_def)

lemma mux_start_promise:
  "p < length its \<Longrightarrow>
   indexedPromises (mux_start its) ! p
     = Some \<lparr>res_value = fst (iter_next (its ! p)), res_i = int p\<rparr>"
  by (simp add: mux_start_def Let_def)

lemma mux_inv_start:
  assumes srcs: "map src_relay its = [0..<length its]"
  shows "mux_inv (map rest its) (mux_start its)"
proof -
  let ?st = "mux_start its"
  have src_nth: "src_relay (its ! p) = p" if "p < length its" for p
  proof -
    have "map src_relay its ! p = [0..<length its] ! p" by (simp only: srcs)
    with that show ?thesis by simp
  qed
  have l2: "\<forall>p < length (relayIterators ?st).
      slot_inv (map rest its) (next_calls ?st) p (relayIterators ?st ! p) (indexedPromises ?st ! p)"
  proof (intro allI impI)
    fix p assume "p < length (relayIterators ?st)"
    hence p: "p < length its" by (simp add: mux_start_simps)
    have cnt: "count_list (map src_relay its) p = 1"
      using p by (simp add: srcs count_list_upt)
    show "slot_inv (map rest its) (next_calls ?st) p (relayIterators ?st ! p) (indexedPromises ?st ! p)"
      using p cnt src_nth [OF p]
      by (cases "its ! p" rule: iter_next_cases)
         (simp_all add: mux_start_simps mux_start_promise slot_inv_def pending_def)
  qed
  have same: "map src_relay (relayIterators ?st) = map src_relay its"
    by (simp add: mux_start_simps comp_def)
  have l3: "distinct (map src_relay (relayIterators ?st))"
    by (simp only: same srcs distinct_upt)
  have "src_relay ` set (relayIterators ?st) = set (map src_relay (relayIterators ?st))"
    by simp
  also have "\<dots> = {0..<length its}"
    by (simp only: same srcs set_upt)
  finally have l4: "\<forall>j < length (map rest its). j \<notin> src_relay ` set (relayIterators ?st) \<longrightarrow>
      count_list (next_calls ?st) j = Suc (length (map rest its ! j))"
    by simp
  show ?thesis
    unfolding mux_inv_def using l2 l3 l4 by (simp add: mux_start_simps)
qed



lemma relay_iterators_src:
  "map src_relay (relay_iterators rs f) = [0..<length (relay_iterators rs f)]"
  by (rule nth_equalityI) (simp_all add: relay_iterators_def)

lemma relay_iterators_rest: "map rest (relay_iterators rs f) = map (\<lambda>r. events r f) rs"
  by (rule nth_equalityI) (simp_all add: relay_iterators_def)

lemma mux_inv_relays:
  "mux_inv (map (\<lambda>r. events r f) rs) (mux_start (relay_iterators rs f))"
  using mux_inv_start [OF relay_iterators_src, of rs f] by (simp only: relay_iterators_rest)

subsection \<open>Every item is delivered\<close>



subsection \<open>The generator follows the order of arrival\<close>



lemma queues_yield_event [simp]: "queues (yield_event u ev st) = queues st"
  by (simp add: queues_def)







subsection \<open>The claims about the multiplexer\<close>



text \<open>
  Claim C5. For every list of relays whose event sequences are finite (each source
  reports exhaustion after its last item) and every arrival order, the loop of the
  generator returns, and it returns with no source and no pending promise left. On the
  source at position \<open>j\<close>, \<^verbatim>\<open>next()\<close> has then been called once per item and once
  more for the report of exhaustion: a source is not polled again after that report,
  and every item taken from a source caused one new call on that source.
\<close>

theorem filter_terminates_all_exhausted:
  "\<exists>st. filter_loop unique sched 0 (mux_start (relay_iterators relays_in filters))
           = Some (Inr st)
      \<and> relayIterators st = [] \<and> indexedPromises st = []
      \<and> (\<forall>j < length relays_in.
            count_list (next_calls st) j = Suc (length (events (relays_in ! j) filters)))"
proof -
  let ?srcs = "map (\<lambda>r. events r filters) relays_in"
  let ?st0 = "mux_start (relay_iterators relays_in filters)"
  have "\<exists>st'. filter_loop unique sched 0 ?st0 = Some (Inr st') \<and> mux_inv ?srcs st' \<and> True
      \<and> relayIterators st' = []"
    using mux_inv_relays by (rule filter_loop_invariant) simp_all
  then obtain st where st: "filter_loop unique sched 0 ?st0 = Some (Inr st)"
      "mux_inv ?srcs st" "relayIterators st = []"
    by blast
  from st(2,3) have "indexedPromises st = []"
    by (simp add: mux_inv_def)
  moreover from st(2,3) have "\<forall>j < length relays_in.
      count_list (next_calls st) j = Suc (length (events (relays_in ! j) filters))"
    by (simp add: mux_inv_def)
  ultimately show ?thesis
    using st(1,3) by blast
qed

theorem filter_terminates_all_exhausted_witness:
  "\<exists>st. filter_loop True (\<lambda>k. 2 * k + 1) 0 (mux_start (relay_iterators [relay_A, relay_B] no_filters))
           = Some (Inr st)
      \<and> relayIterators st = [] \<and> indexedPromises st = []
      \<and> count_list (next_calls st) 0 = 4 \<and> count_list (next_calls st) 1 = 4
      \<and> next_calls st = [0, 1, 1, 1, 1, 0, 0, 0]"
proof -
  obtain st where st:
      "filter_loop True (\<lambda>k. 2 * k + 1) 0 (mux_start (relay_iterators [relay_A, relay_B] no_filters))
         = Some (Inr st)"
      "relayIterators st = []" "indexedPromises st = []"
      "\<forall>j < length [relay_A, relay_B].
         count_list (next_calls st) j = Suc (length (events ([relay_A, relay_B] ! j) no_filters))"
    using filter_terminates_all_exhausted [of True "\<lambda>k. 2 * k + 1" "[relay_A, relay_B]" no_filters]
    by blast
  from st(4) have "count_list (next_calls st) 0 = Suc (length (events relay_A no_filters))"
      "count_list (next_calls st) 1 = Suc (length (events relay_B no_filters))"
    by simp_all
  hence c: "count_list (next_calls st) 0 = 4" "count_list (next_calls st) 1 = 4"
    by (simp_all add: relay_A_def relay_B_def sample_relay_def)
  have e: "map_option (map_sum id next_calls)
      (filter_loop True (\<lambda>k. 2 * k + 1) 0 (mux_start (relay_iterators [relay_A, relay_B] no_filters)))
      = Some (Inr [0, 1, 1, 1, 1, 0, 0, 0])"
    by code_simp
  have "next_calls st = [0, 1, 1, 1, 1, 0, 0, 0]"
    using e [unfolded st(1)] by simp
  with st(1,2,3) c show ?thesis by blast
qed

section \<open>Publishing a thread\<close>

lemma post_id_eventToPost [simp]: "post_id (eventToPost ev) = event_id ev"
  by (simp add: eventToPost_def Let_def split: option.splits)

lemma length_hexEncode: "length (hexEncode bs) = 2 * length bs"
  by (simp add: hexEncode_render length_hex_render)

lemma calculateId_nonempty:
  assumes "\<And>bs. length (sha256 P bs) = 32"
  shows "calculateId P ev \<noteq> []"
proof -
  have "length (calculateId P ev) = 64"
    by (simp add: calculateId_def length_hexEncode assms)
  thus ?thesis by auto
qed

lemma sendPost_eq:
  "sendPost P nostr txt rootRef ref w =
     (case signId P nostr (event_id (unsigned_event P nostr txt rootRef ref w)) of
        Inl e \<Rightarrow> (Inl e, w\<lparr>ticks := Suc (ticks w)\<rparr>)
      | Inr s \<Rightarrow>
          (Inr (eventToPost ((unsigned_event P nostr txt rootRef ref w)\<lparr>sig := decoder_decode (encode s)\<rparr>)),
           send_to_relays (relayInstances nostr)
             ((unsigned_event P nostr txt rootRef ref w)\<lparr>sig := decoder_decode (encode s)\<rparr>)
             (w\<lparr>ticks := Suc (ticks w)\<rparr>)))"
  by (cases "truthy rootRef"; cases "truthy ref")
     (simp_all add: sendPost_def unsigned_event_def Let_def cong: sum.case_cong)

lemma sendPost_signed:
  assumes "signId P nostr (event_id (unsigned_event P nostr txt rootRef ref w)) = Inr s"
  shows "sendPost P nostr txt rootRef ref w =
     (Inr (eventToPost ((unsigned_event P nostr txt rootRef ref w)\<lparr>sig := decoder_decode (encode s)\<rparr>)),
      send_to_relays (relayInstances nostr)
        ((unsigned_event P nostr txt rootRef ref w)\<lparr>sig := decoder_decode (encode s)\<rparr>)
        (w\<lparr>ticks := Suc (ticks w)\<rparr>))"
  by (simp only: sendPost_eq assms sum.case)

lemma sendPost_unsigned:
  assumes "signId P nostr (event_id (unsigned_event P nostr txt rootRef ref w)) = Inl e"
  shows "sendPost P nostr txt rootRef ref w = (Inl e, w\<lparr>ticks := Suc (ticks w)\<rparr>)"
  by (simp only: sendPost_eq assms sum.case)

lemma calculateId_hex:
  assumes "\<And>bs. length (sha256 P bs) = 32"
  shows "length (calculateId P ev) = 64"
    and "set (calculateId P ev) \<subseteq> set ''0123456789abcdef''"
  by (simp_all only: calculateId_def hexEncode_render length_hex_render set_hex_render assms)

lemma sendPost_signs:
  assumes sign: "\<exists>s. schnorr_sign P (event_id (unsigned_event P nostr txt rootRef ref w))
      (privateKey nostr) = Inr s"
  obtains ev where
    "sendPost P nostr txt rootRef ref w =
       (Inr (eventToPost ev), send_to_relays (relayInstances nostr) ev (w\<lparr>ticks := Suc (ticks w)\<rparr>))"
    "content ev = txt"
    "tags ev = (if truthy rootRef then [[''e'', the rootRef, [], ''root'']] else [])
             @ (if truthy ref then [[''e'', the ref, [], ''reply'']] else [])"
    "event_id ev = calculateId P (ev\<lparr>event_id := [], sig := []\<rparr>)"
proof -
  let ?u = "unsigned_event P nostr txt rootRef ref w"
  obtain s where s: "signId P nostr (event_id ?u) = Inr s"
    using sign by (auto simp: signId_def)
  let ?ev = "?u\<lparr>sig := decoder_decode (encode s)\<rparr>"
  show ?thesis
  proof (rule that [of ?ev])
    show "sendPost P nostr txt rootRef ref w =
       (Inr (eventToPost ?ev), send_to_relays (relayInstances nostr) ?ev (w\<lparr>ticks := Suc (ticks w)\<rparr>))"
      using s by (rule sendPost_signed)
    show "content ?ev = txt"
      by (simp add: unsigned_event_def Let_def)
    show "tags ?ev = (if truthy rootRef then [[''e'', the rootRef, [], ''root'']] else [])
             @ (if truthy ref then [[''e'', the ref, [], ''reply'']] else [])"
      by (simp add: unsigned_event_def Let_def)
    show "event_id ?ev = calculateId P (?ev\<lparr>event_id := [], sig := []\<rparr>)"
      by (simp add: unsigned_event_def Let_def)
  qed
qed

lemma event_id_unsigned_event:
  "\<exists>ev. event_id (unsigned_event P nostr txt rootRef ref w) = calculateId P ev"
  by (auto simp: unsigned_event_def Let_def)

lemma sendPost_ok:
  assumes sign: "\<And>m. \<exists>s. schnorr_sign P m (privateKey nostr) = Inr s"
  obtains ev where
    "sendPost P nostr txt rootRef ref w =
       (Inr (eventToPost ev), send_to_relays (relayInstances nostr) ev (w\<lparr>ticks := Suc (ticks w)\<rparr>))"
    "content ev = txt"
    "tags ev = (if truthy rootRef then [[''e'', the rootRef, [], ''root'']] else [])
             @ (if truthy ref then [[''e'', the ref, [], ''reply'']] else [])"
    "event_id ev = calculateId P (ev\<lparr>event_id := [], sig := []\<rparr>)"
  using sign [of "event_id (unsigned_event P nostr txt rootRef ref w)"]
  by (rule sendPost_signs)

text \<open>
  The identifiers that \<open>sendPost\<close> signs are renderings of a digest: with a digest of
  32 bytes, strings of 64 characters among 0-9 and a-f. A signer that succeeds on these
  is enough.
\<close>

lemma sendPost_hex_ok:
  assumes sign: "\<And>m. length m = 64 \<Longrightarrow> set m \<subseteq> set ''0123456789abcdef'' \<Longrightarrow>
      \<exists>s. schnorr_sign P m (privateKey nostr) = Inr s"
    and digest: "\<And>bs. length (sha256 P bs) = 32"
  obtains ev where
    "sendPost P nostr txt rootRef ref w =
       (Inr (eventToPost ev), send_to_relays (relayInstances nostr) ev (w\<lparr>ticks := Suc (ticks w)\<rparr>))"
    "content ev = txt"
    "tags ev = (if truthy rootRef then [[''e'', the rootRef, [], ''root'']] else [])
             @ (if truthy ref then [[''e'', the ref, [], ''reply'']] else [])"
    "event_id ev = calculateId P (ev\<lparr>event_id := [], sig := []\<rparr>)"
proof -
  obtain u where u: "event_id (unsigned_event P nostr txt rootRef ref w) = calculateId P u"
    using event_id_unsigned_event by blast
  have "\<exists>s. schnorr_sign P (calculateId P u) (privateKey nostr) = Inr s"
    using calculateId_hex [OF digest, of u] by (rule sign)
  hence "\<exists>s. schnorr_sign P (event_id (unsigned_event P nostr txt rootRef ref w))
      (privateKey nostr) = Inr s"
    by (simp only: u)
  thus ?thesis
    by (rule sendPost_signs) (rule that)
qed

lemma sent_send_to_relays:
  "sent (send_to_relays rs ev w) = sent w @ map (\<lambda>r. (relay_name r, ev, sendEvent_ok r ev)) rs"
  by (simp add: send_to_relays_def)

lemma thread_loop_ok:
  assumes sign: "\<And>m. \<exists>s. schnorr_sign P m (privateKey nostr) = Inr s"
  shows "i = 0 \<or> lastPost \<noteq> None \<Longrightarrow>
         fst (thread_loop P nostr firstPost i txts lastPost w) = Inr ()"
proof (induction txts arbitrary: i lastPost w)
  case Nil
  show ?case by simp
next
  case (Cons item items)
  show ?case
  proof (cases "i = 0")
    case True
    obtain ev where "sendPost P nostr item (Some (post_id firstPost)) None w =
        (Inr (eventToPost ev), send_to_relays (relayInstances nostr) ev (w\<lparr>ticks := Suc (ticks w)\<rparr>))"
      using sign by (rule sendPost_ok)
    with True Cons.IH [of "Suc 0" "Some (eventToPost ev)"] show ?thesis by simp
  next
    case False
    with Cons.prems obtain lp where lp: "lastPost = Some lp" by auto
    obtain ev where "sendPost P nostr item (Some []) (Some (post_id lp)) w =
        (Inr (eventToPost ev), send_to_relays (relayInstances nostr) ev (w\<lparr>ticks := Suc (ticks w)\<rparr>))"
      using sign by (rule sendPost_ok)
    with False lp Cons.IH [of "Suc i" "Some (eventToPost ev)"] show ?thesis by simp
  qed
qed

lemma sendThreadPost_short:
  "length posts < 2 \<Longrightarrow>
   sendThreadPost P nostr posts w = (Inl (Thrown ''At least 2 posts required''), posts, w)"
  by (simp add: sendThreadPost_def)

lemma sendThreadPost_posts:
  "2 \<le> length posts \<Longrightarrow> fst (snd (sendThreadPost P nostr posts w)) = tl posts"
  by (simp add: sendThreadPost_def Let_def split: prod.splits sum.splits)

lemma sendThreadPost_three:
  assumes sign: "\<And>m. length m = 64 \<Longrightarrow> set m \<subseteq> set ''0123456789abcdef'' \<Longrightarrow>
      \<exists>s. schnorr_sign P m (privateKey nostr) = Inr s"
    and digest: "\<And>bs. length (sha256 P bs) = 32"
  shows "\<exists>e1 e2 e3 w'.
     sendThreadPost P nostr [a, b, c] w = (Inr (), [b, c], w')
     \<and> sent w' = sent w @ concat (map (\<lambda>e. map (\<lambda>r. (relay_name r, e, sendEvent_ok r e))
                                     (relayInstances nostr)) [e1, e2, e3])
     \<and> content e1 = a \<and> tags e1 = []
     \<and> content e2 = b \<and> tags e2 = [[''e'', event_id e1, [], ''root'']]
     \<and> content e3 = c \<and> tags e3 = [[''e'', event_id e2, [], ''reply'']]"
proof -
  let ?rs = "relayInstances nostr"
  let ?w1 = "w\<lparr>ticks := Suc (ticks w)\<rparr>"
  obtain e1 where e1:
      "sendPost P nostr a None None w = (Inr (eventToPost e1), send_to_relays ?rs e1 ?w1)"
      "content e1 = a"
      "tags e1 = (if truthy None then [[''e'', the None, [], ''root'']] else [])
         @ (if truthy None then [[''e'', the None, [], ''reply'']] else [])"
      "event_id e1 = calculateId P (e1\<lparr>event_id := [], sig := []\<rparr>)"
    using sign digest by (rule sendPost_hex_ok [of P nostr a None None w])
  have t1: "tags e1 = []"
    using e1(3) by (simp add: truthy_def)
  have id1: "truthy (Some (event_id e1))"
    using calculateId_nonempty [OF digest] e1(4) by (simp add: truthy_def)
  let ?w2 = "send_to_relays ?rs e1 ?w1"
  let ?w3 = "?w2\<lparr>ticks := Suc (ticks ?w2)\<rparr>"
  obtain e2 where e2:
      "sendPost P nostr b (Some (event_id e1)) None ?w2
         = (Inr (eventToPost e2), send_to_relays ?rs e2 ?w3)"
      "content e2 = b"
      "tags e2 = (if truthy (Some (event_id e1)) then [[''e'', the (Some (event_id e1)), [], ''root'']] else [])
         @ (if truthy None then [[''e'', the None, [], ''reply'']] else [])"
      "event_id e2 = calculateId P (e2\<lparr>event_id := [], sig := []\<rparr>)"
    using sign digest by (rule sendPost_hex_ok [of P nostr b "Some (event_id e1)" None ?w2])
  have t2: "tags e2 = [[''e'', event_id e1, [], ''root'']]"
    using e2(3) id1 by (simp add: truthy_def)
  have id2: "truthy (Some (event_id e2))"
    using calculateId_nonempty [OF digest] e2(4) by (simp add: truthy_def)
  let ?w4 = "send_to_relays ?rs e2 ?w3"
  let ?w5 = "?w4\<lparr>ticks := Suc (ticks ?w4)\<rparr>"
  obtain e3 where e3:
      "sendPost P nostr c (Some []) (Some (event_id e2)) ?w4
         = (Inr (eventToPost e3), send_to_relays ?rs e3 ?w5)"
      "content e3 = c"
      "tags e3 = (if truthy (Some []) then [[''e'', the (Some []), [], ''root'']] else [])
         @ (if truthy (Some (event_id e2)) then [[''e'', the (Some (event_id e2)), [], ''reply'']] else [])"
    using sign digest by (rule sendPost_hex_ok [of P nostr c "Some []" "Some (event_id e2)" ?w4])
  have t3: "tags e3 = [[''e'', event_id e2, [], ''reply'']]"
    using e3(3) id2 by (simp add: truthy_def)
  have run: "sendThreadPost P nostr [a, b, c] w = (Inr (), [b, c], send_to_relays ?rs e3 ?w5)"
    by (simp add: sendThreadPost_def sendTextPost_def e1(1) e2(1) e3(1))
  have log: "sent (send_to_relays ?rs e3 ?w5)
      = sent w @ concat (map (\<lambda>e. map (\<lambda>r. (relay_name r, e, sendEvent_ok r e)) ?rs) [e1, e2, e3])"
    by (simp add: sent_send_to_relays)
  show ?thesis
    using run log e1(2) t1 e2(2) t2 e3(2) t3 by blast
qed

text \<open>
  Claim C1, as amended. With fewer than two items \<open>sendThreadPost\<close> throws and sends
  nothing. With the items a, b and c, when the digest has 32 bytes and signing succeeds
  on the identifiers of events (the strings of 64 characters among 0-9 and a-f), it
  returns normally and sends three events to every relay, in this order: the first with
  the content a and no tag; the second with the content b and one tag, an e-tag marked
  root that holds the id of the first event; the third with the content c and one tag,
  an e-tag marked reply that holds the id of the second event.
\<close>

theorem sendThreadPost_chain:
  "(length posts < 2 \<longrightarrow>
      sendThreadPost P nostr posts w = (Inl (Thrown ''At least 2 posts required''), posts, w))
   \<and> ((\<forall>m. length m = 64 \<and> set m \<subseteq> set ''0123456789abcdef'' \<longrightarrow>
            (\<exists>s. schnorr_sign P m (privateKey nostr) = Inr s))
        \<and> (\<forall>bs. length (sha256 P bs) = 32) \<longrightarrow>
      (\<exists>e1 e2 e3 w'.
         sendThreadPost P nostr [a, b, c] w = (Inr (), [b, c], w')
         \<and> sent w' = sent w @ concat (map (\<lambda>e. map (\<lambda>r. (relay_name r, e, sendEvent_ok r e))
                                         (relayInstances nostr)) [e1, e2, e3])
         \<and> content e1 = a \<and> tags e1 = []
         \<and> content e2 = b \<and> tags e2 = [[''e'', event_id e1, [], ''root'']]
         \<and> content e3 = c \<and> tags e3 = [[''e'', event_id e2, [], ''reply'']]))"
proof (intro conjI impI)
  assume "length posts < 2"
  thus "sendThreadPost P nostr posts w = (Inl (Thrown ''At least 2 posts required''), posts, w)"
    by (rule sendThreadPost_short)
next
  assume a: "(\<forall>m. length m = 64 \<and> set m \<subseteq> set ''0123456789abcdef'' \<longrightarrow>
            (\<exists>s. schnorr_sign P m (privateKey nostr) = Inr s))
        \<and> (\<forall>bs. length (sha256 P bs) = 32)"
  hence sign: "\<And>m. length m = 64 \<Longrightarrow> set m \<subseteq> set ''0123456789abcdef'' \<Longrightarrow>
      \<exists>s. schnorr_sign P m (privateKey nostr) = Inr s"
    and digest: "\<And>bs. length (sha256 P bs) = 32"
    by blast+
  show "\<exists>e1 e2 e3 w'.
         sendThreadPost P nostr [a, b, c] w = (Inr (), [b, c], w')
         \<and> sent w' = sent w @ concat (map (\<lambda>e. map (\<lambda>r. (relay_name r, e, sendEvent_ok r e))
                                         (relayInstances nostr)) [e1, e2, e3])
         \<and> content e1 = a \<and> tags e1 = []
         \<and> content e2 = b \<and> tags e2 = [[''e'', event_id e1, [], ''root'']]
         \<and> content e3 = c \<and> tags e3 = [[''e'', event_id e2, [], ''reply'']]"
    using sign digest by (rule sendThreadPost_three)
qed

lemma sample_platform_signs:
  "\<forall>m. \<exists>s. schnorr_sign sample_platform m (privateKey sample_client) = Inr s"
  by (simp add: sample_platform_def sample_client_def)

lemma sample_platform_digest: "\<forall>bs. length (sha256 sample_platform bs) = 32"
  by (auto simp: sample_platform_def)

lemma sample_client_relay:
  "relayInstances sample_client = [relay_A]" "sent start_world = []"
  "relay_name relay_A = ''wss://a''" "sendEvent_ok relay_A ev = True"
  by (simp_all add: sample_client_def start_world_def relay_A_def sample_relay_def)

lemma strict_platform_signs:
  assumes "length m = 64" "set m \<subseteq> set ''0123456789abcdef''"
  shows "schnorr_sign strict_platform m (privateKey sample_client) = Inr (replicate 64 0x5A)"
proof -
  obtain bs where bs: "m = hex_render bs" "2 * length bs = length m"
    using lowercase_hex_render [of m] assms by auto
  hence "hexToBytes m = Inr bs" "length bs = 32"
    using assms(1) by (simp_all add: hexToBytes_render)
  thus ?thesis
    by (simp add: strict_platform_def sample_client_def)
qed

lemma strict_platform_digest: "\<forall>bs. length (sha256 strict_platform bs) = 32"
  by (auto simp: strict_platform_def sample_platform_def)

theorem sendThreadPost_chain_witness:
  "sendThreadPost strict_platform sample_client [''only one''] start_world
     = (Inl (Thrown ''At least 2 posts required''), [''only one''], start_world)
   \<and> schnorr_sign strict_platform ''not an id'' (privateKey sample_client)
       = Inl (Thrown ''hexToBytes: received invalid unpadded hex'')
   \<and> (\<exists>e1 e2 e3 w'.
         sendThreadPost strict_platform sample_client [''a'', ''b'', ''c''] start_world
           = (Inr (), [''b'', ''c''], w')
         \<and> sent w' = [(''wss://a'', e1, True), (''wss://a'', e2, True), (''wss://a'', e3, True)]
         \<and> content e1 = ''a'' \<and> tags e1 = []
         \<and> content e2 = ''b'' \<and> tags e2 = [[''e'', event_id e1, [], ''root'']]
         \<and> content e3 = ''c'' \<and> tags e3 = [[''e'', event_id e2, [], ''reply'']])"
proof -
  note chain = sendThreadPost_chain [of "[''only one'']" strict_platform sample_client start_world
      "''a''" "''b''" "''c''"]
  have short: "length [''only one''] < 2" by simp
  have one: "sendThreadPost strict_platform sample_client [''only one''] start_world
     = (Inl (Thrown ''At least 2 posts required''), [''only one''], start_world)"
    using chain short by blast
  have refuse: "schnorr_sign strict_platform ''not an id'' (privateKey sample_client)
       = Inl (Thrown ''hexToBytes: received invalid unpadded hex'')"
    by (simp add: strict_platform_def sample_client_def)
  have signs: "\<forall>m. length m = 64 \<and> set m \<subseteq> set ''0123456789abcdef'' \<longrightarrow>
      (\<exists>s. schnorr_sign strict_platform m (privateKey sample_client) = Inr s)"
    using strict_platform_signs by blast
  obtain e1 e2 e3 w' where three:
      "sendThreadPost strict_platform sample_client [''a'', ''b'', ''c''] start_world
         = (Inr (), [''b'', ''c''], w')"
      "sent w' = sent start_world @ concat (map (\<lambda>e. map (\<lambda>r. (relay_name r, e, sendEvent_ok r e))
                                     (relayInstances sample_client)) [e1, e2, e3])"
      "content e1 = ''a''" "tags e1 = []"
      "content e2 = ''b''" "tags e2 = [[''e'', event_id e1, [], ''root'']]"
      "content e3 = ''c''" "tags e3 = [[''e'', event_id e2, [], ''reply'']]"
    using chain signs strict_platform_digest by blast
  have "sent w' = [(''wss://a'', e1, True), (''wss://a'', e2, True), (''wss://a'', e3, True)]"
    unfolding three(2) by (simp add: sample_client_relay)
  with one refuse three show ?thesis by blast
qed

text \<open>
  The claim as stated fails on the second event: it carries the root-tag only, and no
  tag marked reply.
\<close>

theorem thread_second_event_has_no_reply_tag:
  "length thread_events = 3
   \<and> tags (thread_events ! 1) = [[''e'', event_id (thread_events ! 0), [], ''root'']]
   \<and> find (is_marked ''reply'') (tags (thread_events ! 1)) = None"
proof -
  obtain e1 e2 e3 w' where three:
      "sendThreadPost sample_platform sample_client [''a'', ''b'', ''c''] start_world
         = (Inr (), [''b'', ''c''], w')"
      "sent w' = sent start_world @ concat (map (\<lambda>e. map (\<lambda>r. (relay_name r, e, sendEvent_ok r e))
                                     (relayInstances sample_client)) [e1, e2, e3])"
      "tags e2 = [[''e'', event_id e1, [], ''root'']]"
    using sendThreadPost_three [of sample_platform sample_client "''a''" "''b''" "''c''" start_world]
      sample_platform_signs sample_platform_digest by blast
  have te: "thread_events = [e1, e2, e3]"
    unfolding thread_events_def three(1) by (simp add: three(2) sample_client_relay)
  show ?thesis
    unfolding te by (simp add: three(3) is_marked_def)
qed

text \<open>
  Claim C10. \<open>sendThreadPost\<close> changes the array it is given: with two items or more
  the array is left without its first element, so one shorter, whatever the outcome of
  the call, and the call returns normally when signing succeeds; with fewer than two
  items the call throws and the array is as it was.
\<close>

theorem sendThreadPost_shifts_argument:
  "(2 \<le> length posts \<longrightarrow>
      fst (snd (sendThreadPost P nostr posts w)) = tl posts
      \<and> length (fst (snd (sendThreadPost P nostr posts w))) = length posts - 1)
   \<and> (2 \<le> length posts \<and> (\<forall>m. \<exists>s. schnorr_sign P m (privateKey nostr) = Inr s) \<longrightarrow>
      fst (sendThreadPost P nostr posts w) = Inr ())
   \<and> (length posts < 2 \<longrightarrow>
      fst (sendThreadPost P nostr posts w) = Inl (Thrown ''At least 2 posts required'')
      \<and> fst (snd (sendThreadPost P nostr posts w)) = posts)"
proof (intro conjI impI)
  assume "2 \<le> length posts"
  thus "fst (snd (sendThreadPost P nostr posts w)) = tl posts"
    by (rule sendThreadPost_posts)
  thus "length (fst (snd (sendThreadPost P nostr posts w))) = length posts - 1"
    by simp
next
  assume a: "2 \<le> length posts \<and> (\<forall>m. \<exists>s. schnorr_sign P m (privateKey nostr) = Inr s)"
  hence sign: "\<And>m. \<exists>s. schnorr_sign P m (privateKey nostr) = Inr s" by blast
  obtain ev where ev: "sendPost P nostr (hd posts) None None w =
      (Inr (eventToPost ev), send_to_relays (relayInstances nostr) ev (w\<lparr>ticks := Suc (ticks w)\<rparr>))"
    using sign by (rule sendPost_ok)
  have "fst (thread_loop P nostr (eventToPost ev) 0 (tl posts) None
      (send_to_relays (relayInstances nostr) ev (w\<lparr>ticks := Suc (ticks w)\<rparr>))) = Inr ()"
    using sign by (rule thread_loop_ok) simp
  with a ev show "fst (sendThreadPost P nostr posts w) = Inr ()"
    by (auto simp: sendThreadPost_def sendTextPost_def Let_def split: prod.splits)
next
  assume "length posts < 2"
  hence "sendThreadPost P nostr posts w = (Inl (Thrown ''At least 2 posts required''), posts, w)"
    by (rule sendThreadPost_short)
  thus "fst (sendThreadPost P nostr posts w) = Inl (Thrown ''At least 2 posts required'')"
    "fst (snd (sendThreadPost P nostr posts w)) = posts"
    by simp_all
qed

theorem sendThreadPost_shifts_argument_witness:
  "fst (snd (sendThreadPost sample_platform sample_client [''a'', ''b'', ''c''] start_world))
     = [''b'', ''c'']
   \<and> fst (sendThreadPost sample_platform sample_client [''a'', ''b'', ''c''] start_world) = Inr ()
   \<and> fst (snd (sendThreadPost sample_platform sample_client [''a''] start_world)) = [''a'']
   \<and> fst (sendThreadPost sample_platform sample_client [''a''] start_world)
       = Inl (Thrown ''At least 2 posts required'')"
proof -
  have long: "2 \<le> length [''a'', ''b'', ''c'']" and short: "length [''a''] < 2"
    by simp_all
  from sendThreadPost_shifts_argument [of "[''a'', ''b'', ''c'']" sample_platform sample_client start_world]
    sendThreadPost_shifts_argument [of "[''a'']" sample_platform sample_client start_world]
    long short sample_platform_signs
  show ?thesis by simp
qed

section \<open>Profile queries and validation of received events\<close>

lemma profile_metadata_append:
  "profile_metadata P (xs @ ys) acc =
     (case profile_metadata P xs acc of Inl e \<Rightarrow> Inl e | Inr acc' \<Rightarrow> profile_metadata P ys acc')"
proof (induction xs arbitrary: acc)
  case Nil
  show ?case by simp
next
  case (Cons x xs)
  obtain info c where acc: "acc = (info, c)" by (cases acc)
  show ?case
    unfolding acc using Cons.IH by (simp split: option.splits sum.splits)
qed

lemma getProfile_metadata_error:
  "profile_metadata P (getProfileEvents P nostr (profile_filters pk)) (empty_profile, 0) = Inl e
   \<Longrightarrow> getProfile P nostr sched1 sched2 pk = Some (Inl e)"
  by (simp add: getProfile_def Let_def)

text \<open>
  Claim C3, as amended. Nothing catches the error of \<^verbatim>\<open>JSON.parse\<close>: when a metadata event
  that passed validation is newer than the metadata events before it (its \<open>created_at\<close>
  is above the greatest one seen, which starts at 0) and its content does not parse, the
  profile query fails with the syntax error and returns no profile. An event that is
  not newer is skipped without being parsed. \<open>getMyProfile\<close> and \<open>getOtherProfile\<close> are
  this query on the stored and on the given key.
\<close>

theorem getProfile_unparsable_content_fails:
  "(getProfileEvents P nostr (profile_filters pk) = older @ event # newer
      \<and> profile_metadata P older (empty_profile, 0) = Inr (info, c)
      \<and> c < created_at event \<and> json_parse P (content event) = None
    \<longrightarrow> getProfile P nostr sched1 sched2 pk = Some (Inl SyntaxError))
   \<and> (created_at event \<le> c \<longrightarrow>
        profile_metadata P (event # evs) (info, c) = profile_metadata P evs (info, c))
   \<and> getMyProfile P nostr sched1 sched2 = getProfile P nostr sched1 sched2 (publicKey nostr)
   \<and> getOtherProfile P nostr sched1 sched2 k = getProfile P nostr sched1 sched2 (Some k)"
proof (intro conjI impI)
  assume a: "getProfileEvents P nostr (profile_filters pk) = older @ event # newer
      \<and> profile_metadata P older (empty_profile, 0) = Inr (info, c)
      \<and> c < created_at event \<and> json_parse P (content event) = None"
  hence "profile_metadata P (getProfileEvents P nostr (profile_filters pk)) (empty_profile, 0)
      = Inl SyntaxError"
    by (simp add: profile_metadata_append)
  thus "getProfile P nostr sched1 sched2 pk = Some (Inl SyntaxError)"
    by (rule getProfile_metadata_error)
next
  assume "created_at event \<le> c"
  thus "profile_metadata P (event # evs) (info, c) = profile_metadata P evs (info, c)"
    by simp
next
  show "getMyProfile P nostr sched1 sched2 = getProfile P nostr sched1 sched2 (publicKey nostr)"
    by (simp add: getMyProfile_def)
  show "getOtherProfile P nostr sched1 sched2 k = getProfile P nostr sched1 sched2 (Some k)"
    by (simp add: getOtherProfile_def)
qed

lemma sample_event_valid: "isValidEvent sample_platform (sample_event s)"
  by (simp add: isValidEvent_def sample_platform_def sample_event_def)

lemma sample_profile_events:
  "getProfileEvents sample_platform sample_client f = [sample_event ''1'']"
proof -
  have "subscribePromise relay_A f = [sample_event ''1'', sample_event ''2'', sample_event ''3'']"
    by (simp add: relay_A_def sample_relay_def)
  thus ?thesis
    by (simp add: getProfileEvents_def getProfileEvents_body_def sample_client_relay
        sample_event_valid)
qed

lemma sample_content_unparsable: "json_parse sample_platform (content (sample_event s)) = None"
  by (simp add: sample_platform_def sample_event_def)

theorem getProfile_unparsable_content_fails_witness:
  "getProfileEvents sample_platform sample_client (profile_filters (Some ''ab''))
     = [sample_event ''1'']
   \<and> json_parse sample_platform (content (sample_event ''1'')) = None
   \<and> getProfile sample_platform sample_client (\<lambda>k. k) (\<lambda>k. k) (Some ''ab'')
       = Some (Inl SyntaxError)
   \<and> getOtherProfile sample_platform sample_client (\<lambda>k. k) (\<lambda>k. k) ''ab''
       = Some (Inl SyntaxError)"
proof -
  have new: "(0::int) < created_at (sample_event ''1'')"
    by (simp add: sample_event_def)
  have evs: "getProfileEvents sample_platform sample_client (profile_filters (Some ''ab''))
      = [] @ sample_event ''1'' # []"
    by (simp add: sample_profile_events)
  have old: "profile_metadata sample_platform [] (empty_profile, 0) = Inr (empty_profile, 0)"
    by simp
  note inst = getProfile_unparsable_content_fails [of sample_platform sample_client "Some ''ab''"
      "[]" "sample_event ''1''" "[]" empty_profile 0 "\<lambda>k. k" "\<lambda>k. k" _ "''ab''"]
  have fails: "getProfile sample_platform sample_client (\<lambda>k. k) (\<lambda>k. k) (Some ''ab'')
      = Some (Inl SyntaxError)"
    using inst evs old new sample_content_unparsable [of "''1''"] by blast
  moreover have "getOtherProfile sample_platform sample_client (\<lambda>k. k) (\<lambda>k. k) ''ab''
      = getProfile sample_platform sample_client (\<lambda>k. k) (\<lambda>k. k) (Some ''ab'')"
    using inst by blast
  ultimately show ?thesis
    using sample_profile_events sample_content_unparsable by simp
qed

text \<open>
  The claim as stated fails: the one metadata event that the relay of the sample client
  returns is valid, its content is not JSON, and the query ends in the error.
\<close>

theorem getProfile_throws_on_malformed_content:
  "isValidEvent sample_platform (sample_event ''1'')
   \<and> getProfileEvents sample_platform sample_client (profile_filters (Some ''ab''))
       = [sample_event ''1'']
   \<and> json_parse sample_platform (content (sample_event ''1'')) = None
   \<and> getProfile sample_platform sample_client (\<lambda>k. k) (\<lambda>k. k) (Some ''ab'')
       = Some (Inl SyntaxError)"
proof -
  have "profile_metadata sample_platform [sample_event ''1''] (empty_profile, 0) = Inl SyntaxError"
    by (simp add: sample_content_unparsable) (simp add: sample_event_def)
  hence "getProfile sample_platform sample_client (\<lambda>k. k) (\<lambda>k. k) (Some ''ab'')
      = Some (Inl SyntaxError)"
    by (intro getProfile_metadata_error) (simp add: sample_profile_events)
  thus ?thesis
    using sample_event_valid sample_profile_events sample_content_unparsable by simp
qed

text \<open>
  Claim C4 at a failing input. The signature of \<open>forged_event\<close> does not verify.
  \<open>getProfileEvents\<close> leaves the event out; the generator of \<open>filter\<close> never calls
  \<open>isValidEvent\<close> and hands the event to \<open>collect\<close>, and \<open>globalFeed\<close> and
  \<open>getFollowerInfo\<close> return a post and a follower made from it.
\<close>

theorem filter_surfaces_unverified_event:
  "isValidEvent sample_platform forged_event = False
   \<and> getProfileEvents sample_platform forging_client no_filters = []
   \<and> filter_collect (relayInstances forging_client) (\<lambda>k. 0) no_filters True
       = Some (Inr [forged_event])
   \<and> globalFeed forging_client (\<lambda>k. 0) None None None = Some (Inr [eventToPost forged_event])
   \<and> getFollowerInfo forging_client (\<lambda>k. 0) (Some ''ab'') = Some (Inr [pubkey forged_event])"
proof -
  have "sample_signature \<noteq> ''00''"
    by code_simp
  hence invalid: "isValidEvent sample_platform forged_event = False"
    by (auto simp: isValidEvent_def sample_platform_def forged_event_def)
  have rs: "relayInstances forging_client = [forging_relay]"
    by (simp add: forging_client_def)
  have ev: "events forging_relay f = [forged_event]"
    "subscribePromise forging_relay f = [forged_event]" for f
    by (simp_all add: forging_relay_def)
  have none: "getProfileEvents sample_platform forging_client no_filters = []"
    by (simp add: getProfileEvents_def getProfileEvents_body_def rs ev invalid)
  have start: "mux_start (relay_iterators [forging_relay] f)
      = \<lparr>relayIterators = [\<lparr>src_relay = 0, rest = []\<rparr>],
         indexedPromises = [Some \<lparr>res_value = Value forged_event, res_i = 0\<rparr>],
         yieldedEventIds = [], yielded = [], next_calls = [0]\<rparr>" for f
    by (simp add: mux_start_def relay_iterators_def ev iter_next_def)
  have "filter_loop True (\<lambda>k. 0) 0 (mux_start (relay_iterators [forging_relay] f))
      = Some (Inr \<lparr>relayIterators = [], indexedPromises = [],
           yieldedEventIds = [event_id forged_event], yielded = [forged_event],
           next_calls = [0, 0]\<rparr>)" for f
    unfolding start
    apply (subst filter_loop.simps)
    apply (simp add: loop_body_def js_get_def js_set_def iter_next_def)
    apply (subst filter_loop.simps)
    apply (simp add: loop_body_def splice1_def reindex_def)
    apply (subst filter_loop.simps)
    apply simp
    done
  hence collect: "filter_collect [forging_relay] (\<lambda>k. 0) f True = Some (Inr [forged_event])" for f
    by (simp add: filter_collect_def)
  show ?thesis
    using invalid none
    by (simp add: rs collect globalFeed_def getFollowerInfo_def await_def Let_def)
qed

section \<open>The stored keys\<close>

lemma set_privateKey_derives:
  assumes "from_nip19 ''nsec'' v = Inr k" "k \<noteq> []" "schnorr_getPublicKey P k = Inr bs"
  shows "set_privateKey P v nostr
     = (None, nostr\<lparr>privateKey := Some k, publicKey := Some (decoder_decode (encode bs))\<rparr>)"
  using assms by (simp add: set_privateKey_def Let_def)

lemma set_privateKey_normal:
  assumes "set_privateKey P v nostr = (None, nostr')"
  shows "nostr' = nostr \<or> (privateKey nostr' \<noteq> None \<and> key_inv P nostr')"
  using assms
  by (auto simp: set_privateKey_def key_inv_def Let_def split: sum.splits if_splits)

lemma set_publicKey_overwrites:
  assumes "set_publicKey v nostr = (None, nostr')"
  shows "privateKey nostr' = privateKey nostr
     \<and> from_nip19 ''npub'' v = Inr (the (publicKey nostr')) \<and> publicKey nostr' \<noteq> None"
  using assms by (auto simp: set_publicKey_def split: sum.splits)

text \<open>
  Claim C9, as amended. A call of the setter of the private key that completes normally
  either leaves the client as it was (the value, after decoding, is empty) or stores a
  private key together with the public key derived from it, so it establishes and
  preserves the invariant; with a value that decodes to a non-empty key \<open>k\<close> from which
  a public key derives, the stored keys are \<open>k\<close> and the hex rendering of that public
  key. The setter of the public key stores the value it is given (decoded when it
  starts with npub) and leaves the private key as it is, whatever key that is. The
  other operations of the class assign neither field.
\<close>

theorem privateKey_setter_derives_publicKey:
  "(set_privateKey P v nostr = (None, nostr') \<longrightarrow>
      nostr' = nostr \<or> (privateKey nostr' \<noteq> None \<and> key_inv P nostr'))
   \<and> (set_privateKey P v nostr = (None, nostr') \<and> key_inv P nostr \<longrightarrow> key_inv P nostr')
   \<and> (from_nip19 ''nsec'' v = Inr k \<and> k \<noteq> [] \<and> schnorr_getPublicKey P k = Inr bs \<longrightarrow>
        set_privateKey P v nostr
          = (None, nostr\<lparr>privateKey := Some k, publicKey := Some (decoder_decode (encode bs))\<rparr>))
   \<and> (set_publicKey w nostr = (None, nostr'') \<longrightarrow>
        privateKey nostr'' = privateKey nostr
        \<and> from_nip19 ''npub'' w = Inr (the (publicKey nostr'')) \<and> publicKey nostr'' \<noteq> None)"
  using set_privateKey_normal [of P v nostr nostr'] set_privateKey_derives [of v k P bs nostr]
    set_publicKey_overwrites [of w nostr nostr'']
  by blast

lemma sample_key_derives:
  "from_nip19 ''nsec'' sample_key = Inr sample_key" "sample_key \<noteq> []"
  "schnorr_getPublicKey sample_platform sample_key = Inr (replicate 32 0x37)"
  by code_simp+

lemma keyed_client_eq:
  "keyed_client = new_Nostr\<lparr>privateKey := Some sample_key,
     publicKey := Some (decoder_decode (encode (replicate 32 0x37)))\<rparr>"
  unfolding keyed_client_def
  using set_privateKey_derives [OF sample_key_derives, of new_Nostr] by simp

lemma rekeyed_client_eq:
  "rekeyed_client = new_Nostr\<lparr>privateKey := Some sample_key, publicKey := Some ''ff''\<rparr>"
  by (simp add: rekeyed_client_def keyed_client_eq set_publicKey_def from_nip19_def)

theorem privateKey_setter_derives_publicKey_witness:
  "set_privateKey sample_platform sample_key new_Nostr = (None, keyed_client)
   \<and> privateKey keyed_client = Some sample_key
   \<and> publicKey keyed_client = Some (decoder_decode (encode (replicate 32 0x37)))
   \<and> key_inv sample_platform keyed_client
   \<and> set_publicKey ''ff'' keyed_client = (None, rekeyed_client)
   \<and> privateKey rekeyed_client = Some sample_key"
proof -
  note inst = privateKey_setter_derives_publicKey [of sample_platform sample_key new_Nostr
      keyed_client sample_key "replicate 32 0x37" "''ff''" rekeyed_client]
  note inst2 = privateKey_setter_derives_publicKey [of sample_platform sample_key keyed_client
      keyed_client sample_key "replicate 32 0x37" "''ff''" rekeyed_client]
  have set: "set_privateKey sample_platform sample_key new_Nostr = (None, keyed_client)"
    using inst sample_key_derives by (simp add: keyed_client_eq)
  have pub: "set_publicKey ''ff'' keyed_client = (None, rekeyed_client)"
    by (simp add: rekeyed_client_def set_publicKey_def from_nip19_def)
  have "keyed_client \<noteq> new_Nostr"
    by (simp add: keyed_client_eq new_Nostr_def)
  with inst set have "key_inv sample_platform keyed_client"
    by blast
  moreover from inst2 pub have "privateKey rekeyed_client = privateKey keyed_client"
    by blast
  ultimately show ?thesis
    using set pub by (simp add: keyed_client_eq)
qed

text \<open>
  The claim as stated fails: after the private key has been set, the setter of the
  public key stores another public key beside it.
\<close>

theorem publicKey_setter_breaks_invariant:
  "privateKey keyed_client = Some sample_key
   \<and> key_inv sample_platform keyed_client
   \<and> rekeyed_client = snd (set_publicKey ''ff'' keyed_client)
   \<and> privateKey rekeyed_client = Some sample_key
   \<and> publicKey rekeyed_client = Some ''ff''
   \<and> key_inv sample_platform rekeyed_client = False"
proof -
  have "length (encode bs) = 2 * length bs" for bs
    by (simp only: encode_eq length_concat_enc_pair)
  hence "length (decoder_decode (encode (replicate 32 (0x37 :: byte)))) = 64"
    by (simp add: decoder_decode_def)
  hence "decoder_decode (encode (replicate 32 (0x37 :: byte))) \<noteq> ''ff''"
    by auto
  hence "key_inv sample_platform rekeyed_client = False"
    by (simp add: key_inv_def rekeyed_client_eq sample_key_derives)
  moreover have "key_inv sample_platform keyed_client"
    by (simp add: key_inv_def keyed_client_eq sample_key_derives)
  moreover have "rekeyed_client = snd (set_publicKey ''ff'' keyed_client)"
    by (rule rekeyed_client_def)
  moreover have "privateKey keyed_client = Some sample_key"
    "privateKey rekeyed_client = Some sample_key" "publicKey rekeyed_client = Some ''ff''"
    by (simp_all add: keyed_client_eq rekeyed_client_eq)
  ultimately show ?thesis
    by blast
qed

section \<open>The bech32 conversion of keys\<close>

subsection \<open>Regrouping bits\<close>

lemma digits_val_snoc [simp]: "digits_val b (ds @ [d]) = digits_val b ds * 2 ^ b + d"
  by (simp add: digits_val_def)

lemma digits_val_Nil [simp]: "digits_val b [] = 0"
  by (simp add: digits_val_def)

lemma and_low_mask: "x AND (2 ^ p - 1) = x mod 2 ^ p" for x :: nat
  by (metis mask_eq_exp_minus_1 take_bit_eq_mask take_bit_eq_mod)

lemma drop_and_mask: "drop_bit k x AND (2 ^ t - 1) = (x div 2 ^ k) mod 2 ^ t" for x :: nat
  by (metis drop_bit_eq_div mask_eq_exp_minus_1 take_bit_eq_mask take_bit_eq_mod)

lemma and_low_mask_Suc: "x AND (2 ^ p - Suc 0) = x mod 2 ^ p" for x :: nat
  using and_low_mask [of x p] by simp

lemma drop_and_mask_Suc:
  "drop_bit k x AND (2 ^ t - Suc 0) = (x div 2 ^ k) mod 2 ^ t" for x :: nat
  using drop_and_mask [of k x t] by simp

lemma shift_or_add:
  fixes c n :: nat
  assumes "n < 2 ^ f"
  shows "push_bit f c OR n = c * 2 ^ f + n"
proof -
  have n: "take_bit f n = n"
    using assms by (rule take_bit_nat_eq_self)
  have "push_bit f c AND take_bit f n = 0"
    by (auto simp: bit_eq_iff bit_simps)
  hence "push_bit f c + n = push_bit f c OR n"
    unfolding n by (rule disjunctive_add_eq_or)
  thus ?thesis
    by (simp add: push_bit_eq_mult)
qed

lemma mod_split_pow:
  fixes x :: nat
  assumes "t \<le> p"
  shows "(x div 2 ^ (p - t)) mod 2 ^ t * 2 ^ (p - t) + x mod 2 ^ (p - t) = x mod 2 ^ p"
  using assms by (metis le_add_diff_inverse2 mod_mult2_eq mult.commute power_add)

lemma radix_emit_inv:
  "0 < to \<Longrightarrow>
   \<exists>ds. radix_emit to carry pos res = (pos mod to, res @ ds)
      \<and> length ds = pos div to \<and> (\<forall>d \<in> set ds. d < 2 ^ to)
      \<and> digits_val to (res @ ds) * 2 ^ (pos mod to) + carry mod 2 ^ (pos mod to)
          = digits_val to res * 2 ^ pos + carry mod 2 ^ pos"
proof (induction to carry pos res rule: radix_emit.induct)
  case (1 to carry pos res)
  show ?case
  proof (cases "to \<le> pos")
    case False
    with "1.prems" show ?thesis
      by (subst radix_emit.simps) simp
  next
    case True
    define d where "d = (carry div 2 ^ (pos - to)) mod 2 ^ to"
    have step: "radix_emit to carry pos res = radix_emit to carry (pos - to) (res @ [d])"
      using True "1.prems" by (subst radix_emit.simps) (simp add: d_def drop_and_mask_Suc)
    from "1.IH" True "1.prems" obtain ds where ds:
        "radix_emit to carry (pos - to) (res @ [d]) = ((pos - to) mod to, (res @ [d]) @ ds)"
        "length ds = (pos - to) div to" "\<forall>x \<in> set ds. x < 2 ^ to"
        "digits_val to ((res @ [d]) @ ds) * 2 ^ ((pos - to) mod to)
           + carry mod 2 ^ ((pos - to) mod to)
         = digits_val to (res @ [d]) * 2 ^ (pos - to) + carry mod 2 ^ (pos - to)"
      unfolding d_def drop_and_mask by blast
    have m: "(pos - to) mod to = pos mod to"
      using True by (simp add: le_mod_geq)
    have q: "pos div to = Suc ((pos - to) div to)"
      using True "1.prems" by (simp add: le_div_geq)
    have "digits_val to (res @ [d]) * 2 ^ (pos - to) + carry mod 2 ^ (pos - to)
        = digits_val to res * (2 ^ to * 2 ^ (pos - to))
          + (d * 2 ^ (pos - to) + carry mod 2 ^ (pos - to))"
      by (simp add: algebra_simps)
    also have "2 ^ to * 2 ^ (pos - to) = (2::nat) ^ pos"
      using True by (simp add: power_add [symmetric])
    also have "d * 2 ^ (pos - to) + carry mod 2 ^ (pos - to) = carry mod 2 ^ pos"
      unfolding d_def using True by (rule mod_split_pow)
    finally have val: "digits_val to (res @ [d]) * 2 ^ (pos - to) + carry mod 2 ^ (pos - to)
        = digits_val to res * 2 ^ pos + carry mod 2 ^ pos" .
    have "radix_emit to carry pos res = (pos mod to, res @ (d # ds))"
      using step ds(1) m by simp
    moreover have "length (d # ds) = pos div to"
      using ds(2) q by simp
    moreover have "\<forall>x \<in> set (d # ds). x < 2 ^ to"
      using ds(3) by (simp add: d_def)
    moreover have "digits_val to (res @ (d # ds)) * 2 ^ (pos mod to) + carry mod 2 ^ (pos mod to)
        = digits_val to res * 2 ^ pos + carry mod 2 ^ pos"
      using ds(4) val m by simp
    ultimately show ?thesis by blast
  qed
qed

lemma radix_step_inv:
  assumes inv: "radix_inv from to seen st" and to: "0 < to" and n: "n < 2 ^ from"
    and fits: "fst (snd st) + from \<le> 32"
  shows "\<exists>st'. radix_step from to st n = Inr st' \<and> radix_inv from to (seen @ [n]) st'"
proof -
  obtain carry pos res where st: "st = (carry, pos, res)"
    by (cases st)
  from inv have a: "carry < 2 ^ pos" "pos < to"
      "digits_val to res * 2 ^ pos + carry = digits_val from seen"
      "to * length res + pos = from * length seen" "\<forall>d \<in> set res. d < 2 ^ to"
    by (simp_all add: radix_inv_def st)
  define carry1 where "carry1 = carry * 2 ^ from + n"
  have c1: "push_bit from carry OR n = carry1"
    using n by (simp add: carry1_def shift_or_add)
  have "Suc carry * 2 ^ from \<le> 2 ^ pos * 2 ^ from"
    using a(1) by (intro mult_le_mono1) simp
  hence small: "carry1 < 2 ^ (pos + from)"
    using n by (simp add: carry1_def power_add)
  obtain ds where ds:
      "radix_emit to carry1 (pos + from) res = ((pos + from) mod to, res @ ds)"
      "length ds = (pos + from) div to" "\<forall>d \<in> set ds. d < 2 ^ to"
      "digits_val to (res @ ds) * 2 ^ ((pos + from) mod to) + carry1 mod 2 ^ ((pos + from) mod to)
       = digits_val to res * 2 ^ (pos + from) + carry1 mod 2 ^ (pos + from)"
    using radix_emit_inv [OF to, of carry1 "pos + from" res] by blast
  let ?pos2 = "(pos + from) mod to"
  let ?st' = "(carry1 mod 2 ^ ?pos2, ?pos2, res @ ds)"
  have run: "radix_step from to st n = Inr ?st'"
    using n fits by (simp add: radix_step_def st c1 ds(1) and_low_mask_Suc Let_def)
  have "digits_val to res * 2 ^ (pos + from) + carry1 mod 2 ^ (pos + from)
      = (digits_val to res * 2 ^ pos + carry) * 2 ^ from + n"
    using small by (simp add: carry1_def power_add algebra_simps)
  hence val: "digits_val to (res @ ds) * 2 ^ ?pos2 + carry1 mod 2 ^ ?pos2
      = digits_val from (seen @ [n])"
    using ds(4) a(3) by simp
  have "to * length (res @ ds) + ?pos2 = to * length res + (to * ((pos + from) div to) + ?pos2)"
    using ds(2) by (simp add: algebra_simps)
  also have "\<dots> = to * length res + (pos + from)"
    by simp
  also have "\<dots> = from * length (seen @ [n])"
    using a(4) by simp
  finally have len: "to * length (res @ ds) + ?pos2 = from * length (seen @ [n])" .
  have "radix_inv from to (seen @ [n]) ?st'"
    unfolding radix_inv_def using val len a(5) ds(3) to by auto
  with run show ?thesis by blast
qed

lemma radix_loop_inv:
  assumes to: "0 < to" and width: "to + from \<le> 33"
  shows "radix_inv from to seen st \<Longrightarrow> \<forall>n \<in> set ns. n < 2 ^ from \<Longrightarrow>
         \<exists>st'. radix_loop from to ns st = Inr st' \<and> radix_inv from to (seen @ ns) st'"
proof (induction ns arbitrary: seen st)
  case Nil
  then show ?case by simp
next
  case (Cons n ns)
  have "fst (snd st) < to"
    using Cons.prems(1) by (cases st) (simp add: radix_inv_def)
  hence "fst (snd st) + from \<le> 32"
    using width by simp
  with Cons.prems obtain st1 where st1:
      "radix_step from to st n = Inr st1" "radix_inv from to (seen @ [n]) st1"
    using radix_step_inv [of "from" to seen st n] to by auto
  from Cons.IH [OF st1(2)] Cons.prems(2) obtain st' where
      "radix_loop from to ns st1 = Inr st'" "radix_inv from to ((seen @ [n]) @ ns) st'"
    by auto
  with st1(1) show ?case by simp
qed

lemma radix_inv_start: "0 < to \<Longrightarrow> radix_inv from to [] (0, 0, [])"
  by (simp add: radix_inv_def)

lemma convertRadix2_padded:
  assumes fr: "0 < from" "from \<le> 32" and to: "0 < to" "to \<le> 32" and width: "to + from \<le> 33"
    and data: "\<forall>n \<in> set data. n < 2 ^ from"
  shows "\<exists>ws pad. convertRadix2 data from to True = Inr ws \<and> (\<forall>w \<in> set ws. w < 2 ^ to)
      \<and> pad < to \<and> to * length ws = from * length data + pad
      \<and> digits_val to ws = digits_val from data * 2 ^ pad"
proof -
  obtain st where st: "radix_loop from to data (0, 0, []) = Inr st" "radix_inv from to data st"
    using radix_loop_inv [OF to(1) width radix_inv_start [OF to(1)] data] by auto
  obtain carry pos res where t: "st = (carry, pos, res)"
    by (cases st)
  from st(2) have a: "carry < 2 ^ pos" "pos < to"
      "digits_val to res * 2 ^ pos + carry = digits_val from data"
      "to * length res + pos = from * length data" "\<forall>d \<in> set res. d < 2 ^ to"
    by (simp_all add: radix_inv_def t)
  show ?thesis
  proof (cases "pos = 0")
    case True
    with a(1) have "carry = 0" by simp
    with True a fr to st(1) have "convertRadix2 data from to True = Inr res"
        "to * length res = from * length data + 0"
        "digits_val to res = digits_val from data * 2 ^ 0"
      by (simp_all add: convertRadix2_def t)
    with a(5) to(1) show ?thesis by blast
  next
    case False
    define last where "last = carry * 2 ^ (to - pos)"
    have "carry * 2 ^ (to - pos) < 2 ^ pos * 2 ^ (to - pos)"
      using a(1) by (rule mult_less_mono1) simp
    also have "\<dots> = (2::nat) ^ to"
      using a(2) by (simp add: power_add [symmetric])
    finally have small: "last < 2 ^ to"
      by (simp only: last_def)
    hence c': "push_bit (to - pos) carry AND (2 ^ to - Suc 0) = last"
      by (simp add: and_low_mask_Suc push_bit_eq_mult last_def)
    have run: "convertRadix2 data from to True = Inr (res @ [last])"
      using False fr to st(1) by (simp add: convertRadix2_def t c')
    have "2 ^ to = (2::nat) ^ pos * 2 ^ (to - pos)"
      using a(2) by (simp add: power_add [symmetric])
    hence "digits_val to (res @ [last]) = (digits_val to res * 2 ^ pos + carry) * 2 ^ (to - pos)"
      by (simp add: last_def algebra_simps)
    hence val: "digits_val to (res @ [last]) = digits_val from data * 2 ^ (to - pos)"
      by (simp only: a(3))
    have len: "to * length (res @ [last]) = from * length data + (to - pos)"
      using a(2,4) by (simp add: algebra_simps)
    have "to - pos < to"
      using False a(2) by simp
    moreover have "\<forall>w \<in> set (res @ [last]). w < 2 ^ to"
      using a(5) small by simp
    ultimately show ?thesis
      using run val len by blast
  qed
qed

lemma convertRadix2_unpadded:
  assumes fr: "0 < from" "from \<le> 32" and to: "0 < to" "to \<le> 32" and width: "to + from \<le> 33"
    and ws: "\<forall>w \<in> set ws. w < 2 ^ from"
    and len: "from * length ws = to * m + pad" and pad: "pad < from" "pad < to"
    and val: "digits_val from ws = v * 2 ^ pad"
  shows "\<exists>res. convertRadix2 ws from to False = Inr res \<and> length res = m
      \<and> (\<forall>d \<in> set res. d < 2 ^ to) \<and> digits_val to res = v"
proof -
  obtain st where st: "radix_loop from to ws (0, 0, []) = Inr st" "radix_inv from to ws st"
    using radix_loop_inv [OF to(1) width radix_inv_start [OF to(1)] ws] by auto
  obtain carry pos res where t: "st = (carry, pos, res)"
    by (cases st)
  from st(2) have a: "carry < 2 ^ pos" "pos < to"
      "digits_val to res * 2 ^ pos + carry = digits_val from ws"
      "to * length res + pos = from * length ws" "\<forall>d \<in> set res. d < 2 ^ to"
    by (simp_all add: radix_inv_def t)
  have eq: "to * length res + pos = to * m + pad"
    using a(4) len by simp
  have "(to * length res + pos) mod to = (to * m + pad) mod to"
    by (simp only: eq)
  hence pos: "pos = pad"
    using a(2) pad(2) by simp
  with eq to(1) have m: "length res = m"
    by simp
  have "(digits_val to res * 2 ^ pad + carry) mod 2 ^ pad = (v * 2 ^ pad) mod 2 ^ pad"
    using a(3) val pos by simp
  hence carry: "carry = 0"
    using a(1) pos by simp
  with a(3) val pos have v: "digits_val to res = v"
    by simp
  have "convertRadix2 ws from to False = Inr res"
    using fr to st(1) pad(1) by (simp add: convertRadix2_def t pos carry)
  with m a(5) v show ?thesis by blast
qed

lemma digits_val_inj:
  "length xs = length ys \<Longrightarrow> \<forall>x \<in> set xs. x < 2 ^ b \<Longrightarrow> \<forall>y \<in> set ys. y < 2 ^ b \<Longrightarrow>
   digits_val b xs = digits_val b ys \<Longrightarrow> xs = ys"
proof (induction xs arbitrary: ys rule: rev_induct)
  case Nil
  then show ?case by simp
next
  case (snoc x xs)
  then obtain y ys' where ys: "ys = ys' @ [y]"
    by (cases ys rule: rev_cases) auto
  from snoc.prems have small: "x < 2 ^ b" "y < 2 ^ b"
    and eq: "digits_val b xs * 2 ^ b + x = digits_val b ys' * 2 ^ b + y"
    by (simp_all add: ys)
  from eq have "(digits_val b xs * 2 ^ b + x) mod 2 ^ b = (digits_val b ys' * 2 ^ b + y) mod 2 ^ b"
    by simp
  with small have xy: "x = y" by simp
  with eq have "digits_val b xs = digits_val b ys'" by simp
  with snoc.IH [of ys'] snoc.prems have "xs = ys'"
    by (simp add: ys)
  with xy show ?case by (simp add: ys)
qed

lemma toWords_fromWords:
  "\<exists>ws. toWords bs = Inr ws \<and> (\<forall>w \<in> set ws. w < 32)
      \<and> length ws = (8 * length bs + 4) div 5 \<and> fromWords ws = Inr bs"
proof -
  let ?data = "map unat bs"
  have data: "\<forall>n \<in> set ?data. n < 2 ^ 8"
  proof
    fix n assume "n \<in> set ?data"
    then obtain b where "n = unat (b::byte)" by auto
    thus "n < 2 ^ 8" using unsigned_less [of b, where 'a = nat] by simp
  qed
  obtain ws pad where ws: "convertRadix2 ?data 8 5 True = Inr ws" "\<forall>w \<in> set ws. w < 2 ^ 5"
      "pad < 5" "5 * length ws = 8 * length ?data + pad"
      "digits_val 5 ws = digits_val 8 ?data * 2 ^ pad"
    using convertRadix2_padded [of 8 5 ?data] data by auto
  obtain res where res: "convertRadix2 ws 5 8 False = Inr res" "length res = length ?data"
      "\<forall>d \<in> set res. d < 2 ^ 8" "digits_val 8 res = digits_val 8 ?data"
    using convertRadix2_unpadded [of 5 8 ws "length ?data" pad "digits_val 8 ?data"] ws
    by auto
  have "res = ?data"
    using res(2,3,4) data by (intro digits_val_inj [of _ _ 8]) simp_all
  hence inverse: "fromWords ws = Inr bs"
    by (simp add: fromWords_def res(1) comp_def)
  have "length ws = (8 * length bs + 4) div 5"
    using ws(3,4) by simp
  with ws(1,2) inverse show ?thesis
    by (auto simp: toWords_def)
qed


subsection \<open>The alphabet and the checksum\<close>

lemma alphabet_encode_map:
  "\<forall>d \<in> set ds. d < 32 \<Longrightarrow> alphabet_encode ds = Inr (map ((!) bech_alphabet) ds)"
  by (induction ds) (simp_all add: bech_alphabet_def)

lemma alphabet_letter:
  assumes "d < 32"
  shows "index_of (bech_alphabet ! d) bech_alphabet = Some d
     \<and> bech_alphabet ! d \<noteq> CHR ''1''
     \<and> toLowerCase [bech_alphabet ! d] = [bech_alphabet ! d]"
proof -
  have "\<forall>d \<in> set [0..<32]. index_of (bech_alphabet ! d) bech_alphabet = Some d
     \<and> bech_alphabet ! d \<noteq> CHR ''1''
     \<and> toLowerCase [bech_alphabet ! d] = [bech_alphabet ! d]"
    by code_simp
  with assms show ?thesis by simp
qed

lemma alphabet_decode_map:
  "\<forall>d \<in> set ds. d < 32 \<Longrightarrow> alphabet_decode (map ((!) bech_alphabet) ds) = Inr ds"
  by (induction ds) (simp_all add: alphabet_letter)

lemma alphabet_no_separator:
  assumes "\<forall>d \<in> set ds. d < 32"
  shows "CHR ''1'' \<notin> set (map ((!) bech_alphabet) ds)"
proof
  assume "CHR ''1'' \<in> set (map ((!) bech_alphabet) ds)"
  then obtain d where "d \<in> set ds" "bech_alphabet ! d = CHR ''1''"
    by auto
  with assms alphabet_letter [of d] show False
    by simp
qed

lemma toLowerCase_append: "toLowerCase (xs @ ys) = toLowerCase xs @ toLowerCase ys"
  by (simp add: toLowerCase_def)

lemma alphabet_lowercase:
  "\<forall>d \<in> set ds. d < 32 \<Longrightarrow>
   toLowerCase (map ((!) bech_alphabet) ds) = map ((!) bech_alphabet) ds"
proof (induction ds)
  case Nil
  show ?case by (simp add: toLowerCase_def)
next
  case (Cons d ds)
  have "toLowerCase (map ((!) bech_alphabet) (d # ds))
      = toLowerCase [bech_alphabet ! d] @ toLowerCase (map ((!) bech_alphabet) ds)"
    by (simp add: toLowerCase_def)
  with Cons show ?case by (simp add: alphabet_letter)
qed

lemma convertRadix2_checksum:
  assumes "x < 2 ^ 30"
  shows "\<exists>ds. convertRadix2 [x] 30 5 False = Inr ds \<and> length ds = 6 \<and> (\<forall>d \<in> set ds. d < 32)"
proof -
  have "radix_inv 30 5 [] (0, 0, [])"
    by (rule radix_inv_start) simp
  then obtain st where st: "radix_step 30 5 (0, 0, []) x = Inr st" "radix_inv 30 5 ([] @ [x]) st"
    using radix_step_inv [of 30 5 "[]" "(0, 0, [])" x] assms by auto
  obtain carry pos res where t: "st = (carry, pos, res)"
    by (cases st)
  from st(2) have a: "carry < 2 ^ pos" "pos < 5" "5 * length res + pos = 30"
      "\<forall>d \<in> set res. d < 2 ^ 5"
    by (simp_all add: radix_inv_def t)
  from a(2,3) have pos: "pos = 0" and len: "length res = 6"
    by presburger+
  with a(1) have carry: "carry = 0" by simp
  have "convertRadix2 [x] 30 5 False = Inr res"
    by (simp add: convertRadix2_def st(1) t pos carry)
  with len a(4) show ?thesis by auto
qed

lemma bechChecksum_npub:
  "\<exists>cds. bechChecksum ''npub'' ws = Inr (map ((!) bech_alphabet) cds)
      \<and> length cds = 6 \<and> (\<forall>d \<in> set cds. d < 32)"
proof -
  have ok: "\<not> (\<exists>c \<in> set ''npub''. (of_char c :: nat) < 33 \<or> (of_char c :: nat) > 126)"
    by simp
  obtain cds where cds:
      "convertRadix2 [checksum_value ''npub'' ws mod 2 ^ 30] 30 5 False = Inr cds"
      "length cds = 6" "\<forall>d \<in> set cds. d < 32"
    using convertRadix2_checksum [of "checksum_value ''npub'' ws mod 2 ^ 30"] by auto
  have "bechChecksum ''npub'' ws = Inr (map ((!) bech_alphabet) cds)"
    unfolding bechChecksum_def using ok cds(1,3) by (simp add: alphabet_encode_map)
  with cds(2,3) show ?thesis by blast
qed

subsection \<open>Encoding and decoding a string\<close>

lemma index_of_first:
  "c \<notin> set xs \<Longrightarrow> index_of c (xs @ c # ys) = Some (length xs)"
  by (induction xs) auto

lemma bech32_encode_npub:
  assumes ws: "\<forall>w \<in> set ws. w < 32" and fits: "length ws + 11 \<le> lim"
  shows "\<exists>cds. bech32_encode ''npub'' ws lim
        = Inr (''npub1'' @ map ((!) bech_alphabet) ws @ map ((!) bech_alphabet) cds)
      \<and> length cds = 6 \<and> (\<forall>d \<in> set cds. d < 32)
      \<and> bechChecksum ''npub'' ws = Inr (map ((!) bech_alphabet) cds)"
proof -
  obtain cds where cds: "bechChecksum ''npub'' ws = Inr (map ((!) bech_alphabet) cds)"
      "length cds = 6" "\<forall>d \<in> set cds. d < 32"
    using bechChecksum_npub by blast
  have low: "toLowerCase ''npub'' = ''npub''"
    by code_simp
  have "bech32_encode ''npub'' ws lim
      = Inr (''npub1'' @ map ((!) bech_alphabet) ws @ map ((!) bech_alphabet) cds)"
    using fits by (simp add: bech32_encode_def low alphabet_encode_map [OF ws] cds(1))
  with cds show ?thesis by blast
qed

lemma bech32_decode_npub:
  assumes ws: "\<forall>w \<in> set ws. w < 32" and cds: "length cds = 6" "\<forall>d \<in> set cds. d < 32"
    and csum: "bechChecksum ''npub'' ws = Inr (map ((!) bech_alphabet) cds)"
  shows "bech32_decode (''npub1'' @ map ((!) bech_alphabet) ws @ map ((!) bech_alphabet) cds) lim
     = (if length ws + 11 > lim then Inl TypeError
        else Inr \<lparr>dec_prefix = ''npub'', dec_words = ws\<rparr>)"
proof -
  define tail where "tail = map ((!) bech_alphabet) (ws @ cds)"
  define str where "str = ''npub1'' @ tail"
  define check where "check = map ((!) bech_alphabet) cds"
  have all: "\<forall>d \<in> set (ws @ cds). d < 32"
    using ws cds(2) by auto
  have ltail: "length tail = length ws + 6" and lcheck: "length check = 6"
    using cds(1) by (simp_all add: tail_def check_def)
  have len: "length str = length ws + 11"
    using ltail by (simp add: str_def)
  have "toLowerCase ''npub1'' = ''npub1''"
    by code_simp
  hence low: "toLowerCase str = str"
    unfolding str_def tail_def by (simp only: toLowerCase_append alphabet_lowercase [OF all])
  have r: "rev str = rev tail @ CHR ''1'' # ''bupn''"
    by (simp add: str_def)
  have "CHR ''1'' \<notin> set (rev tail)"
    using alphabet_no_separator [OF all] by (simp add: tail_def)
  hence "index_of CHR ''1'' (rev tail @ CHR ''1'' # ''bupn'') = Some (length (rev tail))"
    by (rule index_of_first)
  hence "index_of CHR ''1'' (rev str) = Some (length ws + 6)"
    unfolding r using ltail by simp
  hence sep: "lastIndexOf CHR ''1'' str = Some 4"
    unfolding lastIndexOf_def using len by simp
  have parts: "take 4 str = ''npub''" "drop 5 str = tail"
    by (simp_all add: str_def)
  have dec: "alphabet_decode tail = Inr (ws @ cds)"
    unfolding tail_def using all by (rule alphabet_decode_map)
  have cut: "take (length ws) (ws @ cds) = ws"
    by simp
  have ends: "drop (length ws) tail = check"
    by (simp add: tail_def check_def)
  have "bech32_decode str lim
     = (if length ws + 11 > lim then Inl TypeError
        else Inr \<lparr>dec_prefix = ''npub'', dec_words = ws\<rparr>)"
    using cds(1)
    by (simp add: bech32_decode_def Let_def low len sep parts dec ltail csum
        check_def [symmetric] lcheck ends)
  thus ?thesis
    by (simp add: str_def tail_def)
qed

lemma split_on_none: "c \<notin> set xs \<Longrightarrow> split_on c xs = [xs]"
  by (induction xs) auto

lemma rejoin_npub:
  assumes "CHR ''1'' \<notin> set tail"
  shows "rejoin (''npub1'' @ tail) = ''npub1'' @ tail"
proof -
  have "split_on CHR ''1'' (''npub1'' @ tail) = [''npub'', tail]"
    by (simp add: split_on_none [OF assms])
  thus ?thesis by (simp add: rejoin_def)
qed

subsection \<open>There and back\<close>

lemma nip19_there_and_back:
  assumes "(8 * length bs + 4) div 5 + 11 \<le> 5000"
  shows "\<exists>e. getNip19FromKey (hex_render bs) = Inr e
      \<and> length e = (8 * length bs + 4) div 5 + 11
      \<and> getKeyFromNip19 e
          = (if length e > 1500 then Inl TypeError else Inr (hex_render bs))"
proof -
  obtain ws where ws: "toWords bs = Inr ws" "\<forall>w \<in> set ws. w < 32"
      "length ws = (8 * length bs + 4) div 5" "fromWords ws = Inr bs"
    using toWords_fromWords by blast
  obtain cds where cds:
      "bech32_encode ''npub'' ws Bech32MaxSize
        = Inr (''npub1'' @ map ((!) bech_alphabet) ws @ map ((!) bech_alphabet) cds)"
      "length cds = 6" "\<forall>d \<in> set cds. d < 32"
      "bechChecksum ''npub'' ws = Inr (map ((!) bech_alphabet) cds)"
    using bech32_encode_npub [OF ws(2), of Bech32MaxSize] assms ws(3)
    by (auto simp: Bech32MaxSize_def)
  let ?tail = "map ((!) bech_alphabet) ws @ map ((!) bech_alphabet) cds"
  let ?e = "''npub1'' @ ?tail"
  have enc: "getNip19FromKey (hex_render bs) = Inr ?e"
    by (simp add: getNip19FromKey_def hexToBytes_render ws(1) cds(1))
  have len: "length ?e = (8 * length bs + 4) div 5 + 11"
    using ws(3) cds(2) by simp
  have "CHR ''1'' \<notin> set ?tail"
    using alphabet_no_separator [OF ws(2)] alphabet_no_separator [OF cds(3)] by simp
  hence same: "rejoin ?e = ?e"
    by (rule rejoin_npub)
  have dec: "bech32_decode ?e 1500
     = (if length ws + 11 > 1500 then Inl TypeError
        else Inr \<lparr>dec_prefix = ''npub'', dec_words = ws\<rparr>)"
    using ws(2) cds(2,3,4) by (rule bech32_decode_npub)
  have "getKeyFromNip19 ?e = (if length ?e > 1500 then Inl TypeError else Inr (hex_render bs))"
    unfolding getKeyFromNip19_def same dec
    using ws(3,4) cds(2) by (simp add: bytesToHex_def)
  with enc len show ?thesis by blast
qed

lemma map_fixed: "map f xs = xs \<longleftrightarrow> (\<forall>x \<in> set xs. f x = x)"
  by (induction xs) auto

lemma hex_letters_lowered:
  "\<forall>c \<in> set ''0123456789abcdefABCDEF''.
     hex_value (hd (toLowerCase [c])) = hex_value c
     \<and> hd (toLowerCase [c]) \<in> set ''0123456789abcdef''
     \<and> (hd (toLowerCase [c]) = c \<longleftrightarrow> c \<in> set ''0123456789abcdef'')"
  by (simp add: toLowerCase_def hex_value_def char_of_eq_iff)

lemma toLowerCase_hex:
  assumes "set k \<subseteq> set ''0123456789abcdefABCDEF''"
  shows "set (toLowerCase k) \<subseteq> set ''0123456789abcdef''"
    and "toLowerCase k = k \<longleftrightarrow> set k \<subseteq> set ''0123456789abcdef''"
proof -
  have each: "\<forall>c \<in> set k. hd (toLowerCase [c]) \<in> set ''0123456789abcdef''
      \<and> (hd (toLowerCase [c]) = c \<longleftrightarrow> c \<in> set ''0123456789abcdef'')"
    using assms hex_letters_lowered by blast
  have as_map: "toLowerCase k = map (\<lambda>c. hd (toLowerCase [c])) k"
    by (simp add: toLowerCase_def)
  show "set (toLowerCase k) \<subseteq> set ''0123456789abcdef''"
    unfolding as_map using each by auto
  show "toLowerCase k = k \<longleftrightarrow> set k \<subseteq> set ''0123456789abcdef''"
    unfolding as_map map_fixed using each by blast
qed

lemma hexToBytes_toLowerCase:
  "set k \<subseteq> set ''0123456789abcdefABCDEF'' \<Longrightarrow> hexToBytes (toLowerCase k) = hexToBytes k"
proof (induction k rule: induct_list012)
  case 1
  show ?case by (simp add: toLowerCase_def)
next
  case (2 c)
  show ?case by (simp add: toLowerCase_def)
next
  case (3 c1 c2 cs)
  from "3.prems" have c: "c1 \<in> set ''0123456789abcdefABCDEF''" "c2 \<in> set ''0123456789abcdefABCDEF''"
    and cs: "set cs \<subseteq> set ''0123456789abcdefABCDEF''"
    by auto
  have v: "hex_value (hd (toLowerCase [c1])) = hex_value c1"
      "hex_value (hd (toLowerCase [c2])) = hex_value c2"
    using c hex_letters_lowered by blast+
  have len: "length (toLowerCase cs) = length cs"
    by (simp add: toLowerCase_def)
  have "toLowerCase (c1 # c2 # cs)
      = hd (toLowerCase [c1]) # hd (toLowerCase [c2]) # toLowerCase cs"
    by (simp add: toLowerCase_def)
  thus ?case
    using "3.IH"(1) [OF cs] v len by (simp split: option.split)
qed

lemma nip19_lowercases:
  assumes k: "length k = 64" "set k \<subseteq> set ''0123456789abcdefABCDEF''"
  shows "\<exists>e. getNip19FromKey k = Inr e \<and> getKeyFromNip19 e = Inr (toLowerCase k)"
proof -
  let ?l = "toLowerCase k"
  have l: "length ?l = 64" "set ?l \<subseteq> set ''0123456789abcdef''"
    using k toLowerCase_hex(1) by (simp_all add: toLowerCase_def)
  then obtain bs where bs: "?l = hex_render bs" "2 * length bs = length ?l"
    using lowercase_hex_render [of ?l] by auto
  with l(1) have n: "length bs = 32" by simp
  obtain e where e: "getNip19FromKey (hex_render bs) = Inr e"
      "length e = (8 * length bs + 4) div 5 + 11"
      "getKeyFromNip19 e = (if length e > 1500 then Inl TypeError else Inr (hex_render bs))"
    using nip19_there_and_back [of bs] n by auto
  from e(2,3) n bs(1) have lowered: "getKeyFromNip19 e = Inr ?l"
    by simp
  have "getNip19FromKey k = getNip19FromKey ?l"
    using hexToBytes_toLowerCase [OF k(2)] by (simp add: getNip19FromKey_def)
  hence "getNip19FromKey k = Inr e"
    using e(1) bs(1) by simp
  with lowered show ?thesis by blast
qed

text \<open>
  Claim C8, as amended. A key of 32 bytes in hex is a string of 64 characters among
  0-9, a-f and A-F. For every such key \<open>getNip19FromKey\<close> returns an encoding, and
  \<open>getKeyFromNip19\<close> decodes that encoding to the key in lowercase: to the key
  itself exactly when the key has no digit among A-F.
\<close>

theorem nip19_decode_encode:
  "length k = 64 \<Longrightarrow> set k \<subseteq> set ''0123456789abcdefABCDEF'' \<Longrightarrow>
   (\<exists>e. getNip19FromKey k = Inr e \<and> getKeyFromNip19 e = Inr (toLowerCase k))
   \<and> nip19_round_trip k = Inr (toLowerCase k)
   \<and> (nip19_round_trip k = Inr k \<longleftrightarrow> set k \<subseteq> set ''0123456789abcdef'')"
proof -
  assume k: "length k = 64" "set k \<subseteq> set ''0123456789abcdefABCDEF''"
  then obtain e where e: "getNip19FromKey k = Inr e" "getKeyFromNip19 e = Inr (toLowerCase k)"
    using nip19_lowercases by blast
  hence trip: "nip19_round_trip k = Inr (toLowerCase k)"
    by (simp add: nip19_round_trip_def)
  hence "nip19_round_trip k = Inr k \<longleftrightarrow> set k \<subseteq> set ''0123456789abcdef''"
    using toLowerCase_hex(2) [OF k(2)] by simp
  with e trip show ?thesis by blast
qed

theorem nip19_decode_encode_witness:
  "nip19_round_trip ''3bf0c63fcb93463407af97a5e5ee64fa883d107ef9e558472c4eb9aaaefa459d''
     = Inr ''3bf0c63fcb93463407af97a5e5ee64fa883d107ef9e558472c4eb9aaaefa459d''
   \<and> nip19_round_trip ''3bf0c63fcb93463407af97a5e5ee64fa883d107ef9e558472c4eb9aaaefa459D''
     = Inr ''3bf0c63fcb93463407af97a5e5ee64fa883d107ef9e558472c4eb9aaaefa459d''
   \<and> (\<exists>e. getNip19FromKey ''3bf0c63fcb93463407af97a5e5ee64fa883d107ef9e558472c4eb9aaaefa459d'' = Inr e
     \<and> getKeyFromNip19 e
         = Inr ''3bf0c63fcb93463407af97a5e5ee64fa883d107ef9e558472c4eb9aaaefa459d'')"
proof -
  let ?k = "''3bf0c63fcb93463407af97a5e5ee64fa883d107ef9e558472c4eb9aaaefa459d''"
  let ?m = "''3bf0c63fcb93463407af97a5e5ee64fa883d107ef9e558472c4eb9aaaefa459D''"
  have "length ?k = 64" "length ?m = 64"
    by simp_all
  moreover have "set ?k \<subseteq> set ''0123456789abcdefABCDEF''" "set ?m \<subseteq> set ''0123456789abcdefABCDEF''"
    by simp_all
  moreover have "toLowerCase ?k = ?k" "toLowerCase ?m = ?k"
    by (simp_all add: toLowerCase_def char_of_eq_iff)
  ultimately show ?thesis
    using nip19_decode_encode [of ?k] nip19_decode_encode [of ?m] by metis
qed

text \<open>
  The claim as stated fails on a key written with the digits A-F: the key is encoded,
  and the encoding decodes to the key in lowercase, which is another string.
\<close>

theorem nip19_uppercase_key_comes_back_lowercase:
  "nip19_round_trip ''3BF0C63FCB93463407AF97A5E5EE64FA883D107EF9E558472C4EB9AAAEFA459D''
     = Inr ''3bf0c63fcb93463407af97a5e5ee64fa883d107ef9e558472c4eb9aaaefa459d''
   \<and> nip19_round_trip ''3BF0C63FCB93463407AF97A5E5EE64FA883D107EF9E558472C4EB9AAAEFA459D''
     \<noteq> Inr ''3BF0C63FCB93463407AF97A5E5EE64FA883D107EF9E558472C4EB9AAAEFA459D''"
proof -
  let ?K = "''3BF0C63FCB93463407AF97A5E5EE64FA883D107EF9E558472C4EB9AAAEFA459D''"
  let ?k = "''3bf0c63fcb93463407af97a5e5ee64fa883d107ef9e558472c4eb9aaaefa459d''"
  have "length ?K = 64" "set ?K \<subseteq> set ''0123456789abcdefABCDEF''"
    by simp_all
  then obtain e where e: "getNip19FromKey ?K = Inr e" "getKeyFromNip19 e = Inr (toLowerCase ?K)"
    using nip19_lowercases by blast
  have "toLowerCase ?K = ?k"
    by (simp add: toLowerCase_def char_of_eq_iff)
  with e have "nip19_round_trip ?K = Inr ?k"
    by (simp add: nip19_round_trip_def)
  thus ?thesis by simp
qed

lemma hex_render_zeros: "hex_render (replicate n 0) = replicate (2 * n) CHR ''0''"
proof (induction n)
  case 0
  show ?case by (simp add: hex_render_def)
next
  case (Suc n)
  have "hex_of_byte 0 = ''00''"
    by code_simp
  with Suc show ?case by (simp add: hex_render_def)
qed

text \<open>
  Claim C6 at a failing input. The key of 1000 zero bytes is encoded (the encoder's
  bound is \<open>Bech32MaxSize\<close>, 5000) into a string of 1611 characters; the decoder,
  whose bound is 1500, throws on that string.
\<close>

theorem decoder_rejects_encoding_above_1500:
  "\<exists>e. getNip19FromKey (replicate 2000 CHR ''0'') = Inr e \<and> length e = 1611
     \<and> getKeyFromNip19 e = Inl TypeError"
proof -
  have "(8 * length (replicate 1000 (0::byte)) + 4) div 5 + 11 = 1611"
    by simp
  moreover have "hex_render (replicate 1000 (0::byte)) = replicate 2000 CHR ''0''"
    using hex_render_zeros [of 1000] by simp
  ultimately show ?thesis
    using nip19_there_and_back [of "replicate 1000 (0::byte)"] by auto
qed

end
